theory Spec2Isabelle
  imports Main "HOL-Library.Word" "HOL-Library.Monad_Syntax"
begin

unbundle bit_operations_syntax

section \<open>IEEE-754 binary32 values\<close>

text \<open>
  The module works on C++ \<open>float\<close>: it compares them, moves them and combines their bit
  patterns with masks; it never adds, multiplies or rounds. A \<open>float\<close> is therefore
  modelled by its 32-bit pattern, and the \<open>memcpy\<close> of \<open>cpu_isFinite\<close> is the identity.
  The fields of a pattern are the sign (bit 31), the biased exponent (bits 23..30) and the
  mantissa (bits 0..22). A NaN has an all-ones exponent and a non-zero mantissa; an
  infinity has an all-ones exponent and a zero mantissa.
\<close>

type_synonym float = "32 word"

definition exponent :: "float \<Rightarrow> 32 word" where
  "exponent w = drop_bit 23 w AND 0xFF"

definition mantissa :: "float \<Rightarrow> 32 word" where
  "mantissa w = w AND 0x7FFFFF"

definition is_nan :: "float \<Rightarrow> bool" where
  "is_nan w = (exponent w = 0xFF \<and> mantissa w \<noteq> 0)"

text \<open>\<open>std::numeric_limits<float>::infinity()\<close> and its negation.\<close>

definition pInf :: float where
  "pInf = 0x7F800000"

definition nInf :: float where
  "nInf = 0xFF800000"

text \<open>
  The order of the values that are not NaN is the order of their sign-magnitude integers:
  \<open>fval\<close> is strictly monotone in the real number (or infinity) a pattern denotes, and
  sends both zeros to 0. The comparisons of C++ and of the SSE compare instructions are
  false as soon as one operand is a NaN; \<open>cmpneq\<close> is the negation of \<open>cmpeq\<close> and so true
  there.
\<close>

definition fval :: "float \<Rightarrow> int" where
  "fval w = (if bit w 31 then - uint (w AND 0x7FFFFFFF) else uint (w AND 0x7FFFFFFF))"

definition flt :: "float \<Rightarrow> float \<Rightarrow> bool" where
  "flt a b = (\<not> is_nan a \<and> \<not> is_nan b \<and> fval a < fval b)"

definition fgt :: "float \<Rightarrow> float \<Rightarrow> bool" where
  "fgt a b = flt b a"

definition feq :: "float \<Rightarrow> float \<Rightarrow> bool" where
  "feq a b = (\<not> is_nan a \<and> \<not> is_nan b \<and> fval a = fval b)"

definition fle :: "float \<Rightarrow> float \<Rightarrow> bool" where
  "fle a b = (\<not> is_nan a \<and> \<not> is_nan b \<and> fval a \<le> fval b)"

section \<open>The sample buffer\<close>

text \<open>
  \<open>values\<close> points to a read-only region of floats; the list holds the elements the
  pointer may be read at. A read outside it is undefined behaviour in C++ and \<open>None\<close>
  here, and every function that reads returns an option. \<open>size_t\<close> is a 64-bit unsigned
  integer: \<open>index += stride\<close> wraps, which is written out; the other counters of the
  source (\<open>i++\<close>, \<open>i += 4\<close> below a bound, \<open>(size / 4) * 4\<close>) cannot wrap.
\<close>

type_synonym buffer = "float list"

definition load :: "buffer \<Rightarrow> nat \<Rightarrow> float option" where
  "load values i = (if i < length values then Some (values ! i) else None)"

section \<open>The finiteness test\<close>

definition cpu_isFinite :: "float \<Rightarrow> bool" where
  "cpu_isFinite val = ((val AND 0x7FFFFFFF) < 0x7F800000)"

section \<open>Scalar reductions\<close>

text \<open>
  \<open>for (size_t i = 0; i < size; i++) { body(values[index]); index += stride; }\<close>:
  the loop shared by the four strided reductions, with the loop body as a parameter and
  the running minimum and maximum as the state.
\<close>

function strided_for ::
  "(float \<Rightarrow> 's \<Rightarrow> 's) \<Rightarrow> buffer \<Rightarrow> nat \<Rightarrow> nat \<Rightarrow> nat \<Rightarrow> nat \<Rightarrow> 's \<Rightarrow> 's option" where
  "strided_for body values sz stride i index st =
     (if i < sz then
        (case load values index of
           None \<Rightarrow> None
         | Some v \<Rightarrow> strided_for body values sz stride (i + 1) ((index + stride) mod 2 ^ 64) (body v st))
      else Some st)"
  by pat_completeness auto
termination
  by (relation "measure (\<lambda>(body, values, sz, stride, i, index, st). sz - i)") auto

declare strided_for.simps [simp del]

fun cpu_stridedMinMax_body :: "float \<Rightarrow> float \<times> float \<Rightarrow> float \<times> float" where
  "cpu_stridedMinMax_body v (minValue, maxValue) =
     (if flt v minValue then v else minValue, if fgt v maxValue then v else maxValue)"

definition cpu_stridedMinMax :: "buffer \<Rightarrow> nat \<Rightarrow> nat \<Rightarrow> (float \<times> float) option" where
  "cpu_stridedMinMax values sz stride =
     strided_for cpu_stridedMinMax_body values sz stride 0 0 (pInf, nInf)"

fun cpu_stridedMinMaxSafe_body :: "float \<Rightarrow> float \<times> float \<Rightarrow> float \<times> float" where
  "cpu_stridedMinMaxSafe_body v (minValue, maxValue) =
     (if cpu_isFinite v
      then (if flt v minValue then v else minValue, if fgt v maxValue then v else maxValue)
      else (minValue, maxValue))"

definition cpu_stridedMinMaxSafe :: "buffer \<Rightarrow> nat \<Rightarrow> nat \<Rightarrow> (float \<times> float) option" where
  "cpu_stridedMinMaxSafe values sz stride =
     strided_for cpu_stridedMinMaxSafe_body values sz stride 0 0 (pInf, nInf)"

section \<open>SSE2 registers and intrinsics\<close>

text \<open>
  An \<open>__m128\<close> is four float lanes, lane 0 first. The intrinsics follow the instruction
  set reference: \<open>MINPS\<close>/\<open>MINSS\<close> return the first operand when it is less than the second
  and the second operand otherwise (so also when an operand is a NaN or both are zeros);
  \<open>MAXPS\<close>/\<open>MAXSS\<close> likewise with greater; the \<open>ss\<close> forms combine lane 0 and copy lanes
  1..3 of the first operand; a compare yields all ones or all zeros per lane.
\<close>

type_synonym m128 = "float \<times> float \<times> float \<times> float"

definition min_lane :: "float \<Rightarrow> float \<Rightarrow> float" where
  "min_lane a b = (if flt a b then a else b)"

definition max_lane :: "float \<Rightarrow> float \<Rightarrow> float" where
  "max_lane a b = (if fgt a b then a else b)"

definition cmpord_lane :: "float \<Rightarrow> float \<Rightarrow> float" where
  "cmpord_lane a b = (if \<not> is_nan a \<and> \<not> is_nan b then 0xFFFFFFFF else 0)"

definition cmpneq_lane :: "float \<Rightarrow> float \<Rightarrow> float" where
  "cmpneq_lane a b = (if feq a b then 0 else 0xFFFFFFFF)"

definition mm_set_ss :: "float \<Rightarrow> m128" where
  "mm_set_ss v = (v, 0, 0, 0)"

definition mm_set1_ps :: "float \<Rightarrow> m128" where
  "mm_set1_ps v = (v, v, v, v)"

definition mm_loadu_ps :: "buffer \<Rightarrow> nat \<Rightarrow> m128 option" where
  "mm_loadu_ps values i =
     (if i + 3 < length values
      then Some (values ! i, values ! (i + 1), values ! (i + 2), values ! (i + 3))
      else None)"

fun mm_store_ss :: "m128 \<Rightarrow> float" where
  "mm_store_ss (a0, a1, a2, a3) = a0"

fun mm_min_ps :: "m128 \<Rightarrow> m128 \<Rightarrow> m128" where
  "mm_min_ps (a0, a1, a2, a3) (b0, b1, b2, b3) =
     (min_lane a0 b0, min_lane a1 b1, min_lane a2 b2, min_lane a3 b3)"

fun mm_max_ps :: "m128 \<Rightarrow> m128 \<Rightarrow> m128" where
  "mm_max_ps (a0, a1, a2, a3) (b0, b1, b2, b3) =
     (max_lane a0 b0, max_lane a1 b1, max_lane a2 b2, max_lane a3 b3)"

fun mm_min_ss :: "m128 \<Rightarrow> m128 \<Rightarrow> m128" where
  "mm_min_ss (a0, a1, a2, a3) (b0, b1, b2, b3) = (min_lane a0 b0, a1, a2, a3)"

fun mm_max_ss :: "m128 \<Rightarrow> m128 \<Rightarrow> m128" where
  "mm_max_ss (a0, a1, a2, a3) (b0, b1, b2, b3) = (max_lane a0 b0, a1, a2, a3)"

fun mm_cmpord_ps :: "m128 \<Rightarrow> m128 \<Rightarrow> m128" where
  "mm_cmpord_ps (a0, a1, a2, a3) (b0, b1, b2, b3) =
     (cmpord_lane a0 b0, cmpord_lane a1 b1, cmpord_lane a2 b2, cmpord_lane a3 b3)"

fun mm_cmpneq_ps :: "m128 \<Rightarrow> m128 \<Rightarrow> m128" where
  "mm_cmpneq_ps (a0, a1, a2, a3) (b0, b1, b2, b3) =
     (cmpneq_lane a0 b0, cmpneq_lane a1 b1, cmpneq_lane a2 b2, cmpneq_lane a3 b3)"

fun mm_and_ps :: "m128 \<Rightarrow> m128 \<Rightarrow> m128" where
  "mm_and_ps (a0, a1, a2, a3) (b0, b1, b2, b3) = (a0 AND b0, a1 AND b1, a2 AND b2, a3 AND b3)"

fun mm_andnot_ps :: "m128 \<Rightarrow> m128 \<Rightarrow> m128" where
  "mm_andnot_ps (a0, a1, a2, a3) (b0, b1, b2, b3) =
     (NOT a0 AND b0, NOT a1 AND b1, NOT a2 AND b2, NOT a3 AND b3)"

fun mm_or_ps :: "m128 \<Rightarrow> m128 \<Rightarrow> m128" where
  "mm_or_ps (a0, a1, a2, a3) (b0, b1, b2, b3) = (a0 OR b0, a1 OR b1, a2 OR b2, a3 OR b3)"

text \<open>
  \<open>_MM_SHUFFLE(z, y, x, w)\<close> is \<open>(z << 6) | (y << 4) | (x << 2) | w\<close>, and
  \<open>_mm_shuffle_ps(a, b, imm)\<close> takes lanes 0 and 1 from \<open>a\<close> and lanes 2 and 3 from \<open>b\<close>,
  each selected by two bits of \<open>imm\<close>.
\<close>

definition MM_SHUFFLE :: "nat \<Rightarrow> nat \<Rightarrow> nat \<Rightarrow> nat \<Rightarrow> nat" where
  "MM_SHUFFLE z y x w = z * 64 + y * 16 + x * 4 + w"

fun lane :: "m128 \<Rightarrow> nat \<Rightarrow> float" where
  "lane (a0, a1, a2, a3) k =
     (if k = 0 then a0 else if k = 1 then a1 else if k = 2 then a2 else a3)"

definition mm_shuffle_ps :: "m128 \<Rightarrow> m128 \<Rightarrow> nat \<Rightarrow> m128" where
  "mm_shuffle_ps a b imm =
     (lane a (imm mod 4), lane a (imm div 4 mod 4), lane b (imm div 16 mod 4), lane b (imm div 64 mod 4))"

section \<open>Vector reductions\<close>

definition sse2_reduceMinMax :: "m128 \<Rightarrow> m128 \<Rightarrow> float \<times> float" where
  "sse2_reduceMinMax minVec maxVec =
     (let minVec1 = mm_min_ps minVec (mm_shuffle_ps minVec minVec (MM_SHUFFLE 2 1 0 3));
          minVec2 = mm_min_ps minVec1 (mm_shuffle_ps minVec1 minVec1 (MM_SHUFFLE 1 0 3 2));
          maxVec1 = mm_max_ps maxVec (mm_shuffle_ps maxVec maxVec (MM_SHUFFLE 2 1 0 3));
          maxVec2 = mm_max_ps maxVec1 (mm_shuffle_ps maxVec1 maxVec1 (MM_SHUFFLE 1 0 3 2))
      in (mm_store_ss minVec2, mm_store_ss maxVec2))"

fun sse2_stridedMinMax_body :: "float \<Rightarrow> m128 \<times> m128 \<Rightarrow> m128 \<times> m128" where
  "sse2_stridedMinMax_body v (minVal, maxVal) =
     (let temp = mm_set_ss v
      in (mm_min_ss minVal temp, mm_max_ss maxVal temp))"

definition sse2_stridedMinMax :: "buffer \<Rightarrow> nat \<Rightarrow> nat \<Rightarrow> (float \<times> float) option" where
  "sse2_stridedMinMax values sz stride =
     do {
       (minVal, maxVal) \<leftarrow> strided_for sse2_stridedMinMax_body values sz stride 0 0
                             (mm_set_ss pInf, mm_set_ss nInf);
       Some (mm_store_ss minVal, mm_store_ss maxVal)
     }"

text \<open>
  \<open>for (size_t i = start; i < unrollSize; i += 4) { body(_mm_loadu_ps(&values[i])); }\<close>
  and \<open>for (size_t i = unrollSize; i < size; i++) { body(values[i]); }\<close>: the two loops
  of the bulk reductions.
\<close>

function unrolled_for ::
  "(m128 \<Rightarrow> 's \<Rightarrow> 's) \<Rightarrow> buffer \<Rightarrow> nat \<Rightarrow> nat \<Rightarrow> 's \<Rightarrow> 's option" where
  "unrolled_for body values unrollSize i st =
     (if i < unrollSize then
        (case mm_loadu_ps values i of
           None \<Rightarrow> None
         | Some temp \<Rightarrow> unrolled_for body values unrollSize (i + 4) (body temp st))
      else Some st)"
  by pat_completeness auto
termination
  by (relation "measure (\<lambda>(body, values, unrollSize, i, st). unrollSize - i)") auto

declare unrolled_for.simps [simp del]

function remainder_for ::
  "(float \<Rightarrow> 's \<Rightarrow> 's) \<Rightarrow> buffer \<Rightarrow> nat \<Rightarrow> nat \<Rightarrow> 's \<Rightarrow> 's option" where
  "remainder_for body values sz i st =
     (if i < sz then
        (case load values i of
           None \<Rightarrow> None
         | Some v \<Rightarrow> remainder_for body values sz (i + 1) (body v st))
      else Some st)"
  by pat_completeness auto
termination
  by (relation "measure (\<lambda>(body, values, sz, i, st). sz - i)") auto

declare remainder_for.simps [simp del]

text \<open>
  The unrolled loop of \<open>sse2_vectorMinMax\<close> combines with \<open>_mm_min_ps(temp, minVals)\<close> and
  \<open>_mm_max_ps(temp, maxVals)\<close>; its remainder loop combines lane 0 with
  \<open>_mm_min_ss(minVals, temp)\<close> and \<open>_mm_max_ss(maxVals, temp)\<close>, which is the body of
  \<open>sse2_stridedMinMax\<close>. The registers start as the first four elements.
\<close>

fun sse2_vectorMinMax_body :: "m128 \<Rightarrow> m128 \<times> m128 \<Rightarrow> m128 \<times> m128" where
  "sse2_vectorMinMax_body temp (minVals, maxVals) =
     (mm_min_ps temp minVals, mm_max_ps temp maxVals)"

definition sse2_vectorMinMax :: "buffer \<Rightarrow> nat \<Rightarrow> (float \<times> float) option" where
  "sse2_vectorMinMax values sz =
     (let unrollSize = (sz div 4) * 4 in
      do {
        minVals \<leftarrow> mm_loadu_ps values 0;
        st \<leftarrow> unrolled_for sse2_vectorMinMax_body values unrollSize 4 (minVals, minVals);
        (minVals', maxVals') \<leftarrow> remainder_for sse2_stridedMinMax_body values sz unrollSize st;
        Some (sse2_reduceMinMax minVals' maxVals')
      })"

text \<open>
  The validity mask and the select of the NaN-safe variants:
  \<open>isValid = cmpord(temp, temp) & cmpneq(temp, pInfinity) & cmpneq(temp, nInfinity)\<close> and
  \<open>masked = (isValid & temp) | (~isValid & running)\<close>.
\<close>

definition isValid_mask :: "m128 \<Rightarrow> m128" where
  "isValid_mask temp =
     mm_and_ps (mm_and_ps (mm_cmpord_ps temp temp) (mm_cmpneq_ps temp (mm_set1_ps pInf)))
               (mm_cmpneq_ps temp (mm_set1_ps nInf))"

definition masked_temp :: "m128 \<Rightarrow> m128 \<Rightarrow> m128 \<Rightarrow> m128" where
  "masked_temp isValid temp running =
     mm_or_ps (mm_and_ps isValid temp) (mm_andnot_ps isValid running)"

fun sse2_stridedMinMaxSafe_body :: "float \<Rightarrow> m128 \<times> m128 \<Rightarrow> m128 \<times> m128" where
  "sse2_stridedMinMaxSafe_body v (minVal, maxVal) =
     (let temp = mm_set_ss v;
          isValid = isValid_mask temp;
          maskedMinTemp = masked_temp isValid temp minVal;
          maskedMaxTemp = masked_temp isValid temp maxVal
      in (mm_min_ss minVal maskedMinTemp, mm_max_ss maxVal maskedMaxTemp))"

definition sse2_stridedMinMaxSafe :: "buffer \<Rightarrow> nat \<Rightarrow> nat \<Rightarrow> (float \<times> float) option" where
  "sse2_stridedMinMaxSafe values sz stride =
     do {
       (minVal, maxVal) \<leftarrow> strided_for sse2_stridedMinMaxSafe_body values sz stride 0 0
                             (mm_set_ss pInf, mm_set_ss nInf);
       Some (mm_store_ss minVal, mm_store_ss maxVal)
     }"

text \<open>
  \<open>sse2_vectorMinMaxSafe\<close> starts from the infinities in all four lanes and runs its unrolled
  loop from block 0; its remainder loop has the body of \<open>sse2_stridedMinMaxSafe\<close>.
\<close>

fun sse2_vectorMinMaxSafe_body :: "m128 \<Rightarrow> m128 \<times> m128 \<Rightarrow> m128 \<times> m128" where
  "sse2_vectorMinMaxSafe_body temp (minVals, maxVals) =
     (let isValid = isValid_mask temp;
          maskedMinTemp = masked_temp isValid temp minVals;
          maskedMaxTemp = masked_temp isValid temp maxVals
      in (mm_min_ps maskedMinTemp minVals, mm_max_ps maskedMaxTemp maxVals))"

definition sse2_vectorMinMaxSafe :: "buffer \<Rightarrow> nat \<Rightarrow> (float \<times> float) option" where
  "sse2_vectorMinMaxSafe values sz =
     (let unrollSize = (sz div 4) * 4 in
      do {
        st \<leftarrow> unrolled_for sse2_vectorMinMaxSafe_body values unrollSize 0
                (mm_set1_ps pInf, mm_set1_ps nInf);
        (minVals', maxVals') \<leftarrow> remainder_for sse2_stridedMinMaxSafe_body values sz unrollSize st;
        Some (sse2_reduceMinMax minVals' maxVals')
      })"

section \<open>Dispatch\<close>

text \<open>
  \<open>use_sse2_instructions\<close> is the compile-time macro \<open>USE_SSE2_INSTRUCTIONS\<close>, and \<open>mode\<close>
  the value of \<open>hack_sse2_mode()\<close>, read once from the environment by code that is not part
  of this file. The two entry points choose among the three implementations by the same
  conditions, in the same order.
\<close>

datatype path = Cpu | Sse2Strided | Sse2Vector

definition select_path :: "bool \<Rightarrow> int \<Rightarrow> nat \<Rightarrow> nat \<Rightarrow> path" where
  "select_path use_sse2_instructions mode sz stride =
     (if use_sse2_instructions then
        (if mode = 2 \<or> mode = 3 then Cpu
         else if mode = 1 \<or> stride \<noteq> 1 \<or> sz \<le> 8 then Sse2Strided
         else Sse2Vector)
      else Cpu)"

definition unsafeScanArray ::
  "bool \<Rightarrow> int \<Rightarrow> buffer \<Rightarrow> nat \<Rightarrow> nat \<Rightarrow> (float \<times> float) option" where
  "unsafeScanArray use_sse2_instructions mode values sz stride =
     (case select_path use_sse2_instructions mode sz stride of
        Cpu \<Rightarrow> cpu_stridedMinMax values sz stride
      | Sse2Strided \<Rightarrow> sse2_stridedMinMax values sz stride
      | Sse2Vector \<Rightarrow> sse2_vectorMinMax values sz)"

definition scanArray ::
  "bool \<Rightarrow> int \<Rightarrow> buffer \<Rightarrow> nat \<Rightarrow> nat \<Rightarrow> (float \<times> float) option" where
  "scanArray use_sse2_instructions mode values sz stride =
     (case select_path use_sse2_instructions mode sz stride of
        Cpu \<Rightarrow> cpu_stridedMinMaxSafe values sz stride
      | Sse2Strided \<Rightarrow> sse2_stridedMinMaxSafe values sz stride
      | Sse2Vector \<Rightarrow> sse2_vectorMinMaxSafe values sz)"

definition has_sse2 :: "bool \<Rightarrow> int \<Rightarrow> bool" where
  "has_sse2 use_sse2_instructions mode =
     (if use_sse2_instructions then mode \<noteq> 2 \<and> mode \<noteq> 3 else False)"

definition use_sse2 :: "bool \<Rightarrow> int \<Rightarrow> bool" where
  "use_sse2 use_sse2_instructions mode =
     (if use_sse2_instructions then mode \<noteq> 3 else False)"

section \<open>The view a call scans\<close>

text \<open>
  The offsets a call visits are \<open>0, stride, \<dots>, (size - 1) * stride\<close>; the caller owes a
  buffer that holds them all.
\<close>

definition visited :: "buffer \<Rightarrow> nat \<Rightarrow> nat \<Rightarrow> float list" where
  "visited values sz stride = map (\<lambda>i. values ! (i * stride)) [0..<sz]"

definition valid_view :: "buffer \<Rightarrow> nat \<Rightarrow> nat \<Rightarrow> bool" where
  "valid_view values sz stride =
     (length values \<le> 2 ^ 64 \<and> (sz = 0 \<or> (sz - 1) * stride < length values))"

text \<open>
  The four-element blocks the unrolled loop of a bulk reduction loads, from block \<open>a\<close> up to
  block \<open>n\<close>.
\<close>

definition blocks :: "buffer \<Rightarrow> nat \<Rightarrow> nat \<Rightarrow> m128 list" where
  "blocks values a n =
     map (\<lambda>k. (values ! (4 * k), values ! (4 * k + 1), values ! (4 * k + 2), values ! (4 * k + 3))) [a..<n]"

section \<open>Invariants of the accumulators\<close>

text \<open>
  The vocabulary of the proofs below. A running minimum and a running maximum are both a
  least element for a key: \<open>fval\<close> for the minimum, its negation for the maximum, and \<open>pick\<close> keeps
  the operand with the lesser key, as \<open>min_lane\<close> and \<open>max_lane\<close> do on operands that are not NaN.
\<close>

definition nfval :: "float \<Rightarrow> int" where
  "nfval w = - fval w"

definition pick :: "(float \<Rightarrow> int) \<Rightarrow> float \<Rightarrow> float \<Rightarrow> float" where
  "pick k a b = (if k a < k b then a else b)"

text \<open>
  \<open>ext_inv k seed m S\<close>: the accumulator \<open>m\<close> is not a NaN, is the seed or one of the elements \<open>S\<close>
  taken into account so far, and no element of \<open>S\<close> has a lesser key. \<open>range_inv\<close> says so of a
  (minimum, maximum) pair.
\<close>

definition ext_inv :: "(float \<Rightarrow> int) \<Rightarrow> float \<Rightarrow> float \<Rightarrow> float set \<Rightarrow> bool" where
  "ext_inv k seed m S = (\<not> is_nan m \<and> (m = seed \<or> m \<in> S) \<and> (\<forall>x\<in>S. k m \<le> k x))"

definition range_inv :: "float \<times> float \<Rightarrow> float set \<Rightarrow> bool" where
  "range_inv r S = (ext_inv fval pInf (fst r) S \<and> ext_inv nfval nInf (snd r) S)"

text \<open>Lane 0 of the two registers of a strided vector loop, as \<open>_mm_store_ss\<close> reads them.\<close>

definition proj0 :: "m128 \<times> m128 \<Rightarrow> float \<times> float" where
  "proj0 st = (mm_store_ss (fst st), mm_store_ss (snd st))"

text \<open>What the mask-and-select of the NaN-safe variants computes in one lane.\<close>

definition select_finite :: "float \<Rightarrow> float \<Rightarrow> float" where
  "select_finite t r = (if cpu_isFinite t then t else r)"

text \<open>
  The four lanes of a register, and the invariant of the bulk loops: every lane is an
  accumulator over elements of \<open>S\<close>, and every element of \<open>S\<close> is covered by some lane.
\<close>

fun lanes :: "m128 \<Rightarrow> float set" where
  "lanes (a0, a1, a2, a3) = {a0, a1, a2, a3}"

definition lanes_inv :: "(float \<Rightarrow> int) \<Rightarrow> float \<Rightarrow> m128 \<Rightarrow> float set \<Rightarrow> bool" where
  "lanes_inv k seed ms S =
     ((\<forall>m\<in>lanes ms. \<not> is_nan m \<and> (m = seed \<or> m \<in> S)) \<and> (\<forall>x\<in>S. \<exists>m\<in>lanes ms. k m \<le> k x))"

definition vec_inv :: "m128 \<times> m128 \<Rightarrow> float set \<Rightarrow> bool" where
  "vec_inv st S = (lanes_inv fval pInf (fst st) S \<and> lanes_inv nfval nInf (snd st) S)"

definition lane_ok :: "(float \<Rightarrow> int) \<Rightarrow> float \<Rightarrow> float set \<Rightarrow> float \<Rightarrow> float \<Rightarrow> bool" where
  "lane_ok k seed S' m n = (\<not> is_nan n \<and> (n = seed \<or> n \<in> S') \<and> k n \<le> k m)"

text \<open>The horizontal reduction applied to the pair of registers a bulk loop ends with.\<close>

definition reduce_state :: "m128 \<times> m128 \<Rightarrow> float \<times> float" where
  "reduce_state st = sse2_reduceMinMax (fst st) (snd st)"

text \<open>The block the unsafe bulk reduction loads before its loop.\<close>

definition block0 :: "buffer \<Rightarrow> m128" where
  "block0 values = (values ! 0, values ! 1, values ! 2, values ! 3)"

section \<open>Facts about binary32 patterns\<close>

lemma unat_magnitude: "unat ((w::32 word) AND 0x7FFFFFFF) = unat w mod 2^31"
proof -
  have "(0x7FFFFFFF :: 32 word) = mask 31" by (simp add: mask_eq_exp_minus_1)
  then have "unat (w AND 0x7FFFFFFF) = unat (take_bit 31 w)" by (simp add: take_bit_eq_mask)
  also have "\<dots> = unat w mod 2^31" by (simp only: unsigned_take_bit_eq) (simp add: take_bit_eq_mod)
  finally show ?thesis .
qed

lemma unat_mantissa: "unat (mantissa w) = unat w mod 2^23"
proof -
  have "(0x7FFFFF :: 32 word) = mask 23" by (simp add: mask_eq_exp_minus_1)
  then have "unat (w AND 0x7FFFFF) = unat (take_bit 23 w)" by (simp add: take_bit_eq_mask)
  also have "\<dots> = unat w mod 2^23" by (simp only: unsigned_take_bit_eq) (simp add: take_bit_eq_mod)
  finally show ?thesis by (simp add: mantissa_def)
qed

lemma unat_exponent: "unat (exponent w) = (unat w div 2^23) mod 2^8"
proof -
  have "(0xFF :: 32 word) = mask 8" by (simp add: mask_eq_exp_minus_1)
  then have "unat (drop_bit 23 w AND 0xFF) = unat (take_bit 8 (drop_bit 23 w))" by (simp only: take_bit_eq_mask)
  also have "\<dots> = (unat w div 2^23) mod 2^8"
    by (simp only: unsigned_take_bit_eq unat_drop_bit_eq) (simp add: take_bit_eq_mod drop_bit_eq_div)
  finally show ?thesis by (simp add: exponent_def)
qed

lemma magnitude_fields:
  "unat ((w::32 word) AND 0x7FFFFFFF) = 2^23 * unat (exponent w) + unat (mantissa w)"
proof -
  have "unat w mod 2^31 = unat w mod (2^23 * 2^8)" by simp
  also have "\<dots> = 2^23 * (unat w div 2^23 mod 2^8) + unat w mod 2^23"
    by (rule mod_mult2_eq)
  finally show ?thesis by (simp only: unat_magnitude unat_exponent unat_mantissa)
qed

lemma exponent_le: "unat (exponent w) \<le> 255"
proof -
  have "unat w div 2^23 mod 2^8 < (2^8::nat)" by (rule mod_less_divisor) simp
  then show ?thesis by (simp add: unat_exponent)
qed

lemma mantissa_less: "unat (mantissa w) < 2^23"
  by (simp add: unat_mantissa)

lemma is_nan_iff: "is_nan w \<longleftrightarrow> 0x7F800000 < unat (w AND 0x7FFFFFFF)"
proof -
  have e: "exponent w = 0xFF \<longleftrightarrow> unat (exponent w) = 255"
    by (simp add: word_unat_eq_iff)
  have m: "mantissa w \<noteq> 0 \<longleftrightarrow> unat (mantissa w) \<noteq> 0"
    by (simp add: word_unat_eq_iff)
  show ?thesis
    unfolding is_nan_def e m magnitude_fields
    using exponent_le[of w] mantissa_less[of w] by auto
qed

lemma cpu_isFinite_iff: "cpu_isFinite w \<longleftrightarrow> unat (w AND 0x7FFFFFFF) < 0x7F800000"
  by (simp add: cpu_isFinite_def word_less_nat_alt)

lemma magnitude_inf_iff:
  "unat ((w::32 word) AND 0x7FFFFFFF) = 0x7F800000 \<longleftrightarrow> w = pInf \<or> w = nInf"
proof -
  define q r where "q = unat w div 2^31" and "r = unat w mod 2^31"
  have lt: "unat w < 2^32" using unsigned_less[of w] by simp
  have d: "unat w = 2147483648 * q + r" by (simp add: q_def r_def)
  have "q < 2" unfolding q_def using lt by (simp add: less_mult_imp_div_less)
  then have "q = 0 \<or> q = 1" by linarith
  moreover have "r < 2147483648" by (simp add: r_def)
  ultimately have "r = 0x7F800000 \<longleftrightarrow> unat w = 0x7F800000 \<or> unat w = 0xFF800000"
    using d by auto
  then show ?thesis
    by (simp add: unat_magnitude pInf_def nInf_def word_unat_eq_iff r_def)
qed

lemma fval_pInf: "fval pInf = 0x7F800000" by (simp add: fval_def pInf_def)
lemma fval_nInf: "fval nInf = - 0x7F800000" by (simp add: fval_def nInf_def)
lemma not_nan_pInf: "\<not> is_nan pInf" by (simp add: is_nan_def pInf_def exponent_def mantissa_def)
lemma not_nan_nInf: "\<not> is_nan nInf" by (simp add: is_nan_def nInf_def exponent_def mantissa_def)

lemma cpu_isFinite_classify: "cpu_isFinite w \<longleftrightarrow> \<not> is_nan w \<and> w \<noteq> pInf \<and> w \<noteq> nInf"
  using magnitude_inf_iff[of w] by (auto simp: cpu_isFinite_iff is_nan_iff)

lemma is_nan_uint: "is_nan w \<longleftrightarrow> 0x7F800000 < uint (w AND 0x7FFFFFFF)"
  unfolding is_nan_iff uint_nat by (simp del: of_nat_unat)

lemma cpu_isFinite_uint: "cpu_isFinite w \<longleftrightarrow> uint (w AND 0x7FFFFFFF) < 0x7F800000"
  unfolding cpu_isFinite_iff uint_nat by (simp del: of_nat_unat)

lemma magnitude_inf_uint:
  "uint ((w::32 word) AND 0x7FFFFFFF) = 0x7F800000 \<longleftrightarrow> w = pInf \<or> w = nInf"
  unfolding magnitude_inf_iff[symmetric] uint_nat by (simp del: of_nat_unat)

lemma finite_fval:
  assumes "cpu_isFinite w"
  shows "- 0x7F800000 < fval w \<and> fval w < 0x7F800000"
proof -
  define m where "m = uint (w AND 0x7FFFFFFF)"
  have m0: "0 \<le> m" by (simp add: m_def)
  have f: "fval w = (if bit w 31 then - m else m)" by (simp add: fval_def m_def)
  from assms have "m < 0x7F800000" by (simp add: cpu_isFinite_uint m_def)
  with m0 show ?thesis unfolding f by auto
qed

lemma not_nan_fval:
  assumes "\<not> is_nan w"
  shows "- 0x7F800000 \<le> fval w \<and> fval w \<le> 0x7F800000"
proof -
  define m where "m = uint (w AND 0x7FFFFFFF)"
  have m0: "0 \<le> m" by (simp add: m_def)
  have f: "fval w = (if bit w 31 then - m else m)" by (simp add: fval_def m_def)
  from assms have "m \<le> 0x7F800000" by (simp add: is_nan_uint m_def)
  with m0 show ?thesis unfolding f by auto
qed

lemma fval_eq_pInf:
  assumes "fval w = 0x7F800000"
  shows "w = pInf"
proof -
  define m where "m = uint (w AND 0x7FFFFFFF)"
  have m0: "0 \<le> m" by (simp add: m_def)
  have f: "fval w = (if bit w 31 then - m else m)" by (simp add: fval_def m_def)
  from assms m0 have nb: "\<not> bit w 31" and "m = 0x7F800000"
    unfolding f by (auto split: if_splits)
  then have "w = pInf \<or> w = nInf" by (simp only: magnitude_inf_uint[symmetric] m_def)
  with nb show ?thesis by (auto simp: nInf_def)
qed

lemma fval_eq_nInf:
  assumes "fval w = - 0x7F800000"
  shows "w = nInf"
proof -
  define m where "m = uint (w AND 0x7FFFFFFF)"
  have m0: "0 \<le> m" by (simp add: m_def)
  have f: "fval w = (if bit w 31 then - m else m)" by (simp add: fval_def m_def)
  from assms m0 have nb: "bit w 31" and "m = 0x7F800000"
    unfolding f by (auto split: if_splits)
  then have "w = pInf \<or> w = nInf" by (simp only: magnitude_inf_uint[symmetric] m_def)
  with nb show ?thesis by (auto simp: pInf_def)
qed

section \<open>The loops as folds over the visited elements\<close>

lemma valid_view_offsets:
  assumes "valid_view values sz stride" and "j < sz"
  shows "j * stride < length values" and "j * stride < 2 ^ 64"
proof -
  from assms have "sz - 1 \<ge> j" by simp
  then have "j * stride \<le> (sz - 1) * stride" by (rule mult_le_mono1)
  moreover from assms have "(sz - 1) * stride < length values" and "length values \<le> 2 ^ 64"
    by (auto simp: valid_view_def)
  ultimately show "j * stride < length values" and "j * stride < 2 ^ 64" by linarith+
qed

lemma strided_for_fold_from:
  assumes "valid_view values sz stride" and "i \<le> sz" and "i < sz \<longrightarrow> index = i * stride"
  shows "strided_for body values sz stride i index st =
         Some (fold body (map (\<lambda>j. values ! (j * stride)) [i..<sz]) st)"
  using assms(2,3)
proof (induction "sz - i" arbitrary: i index st)
  case 0
  then have "\<not> i < sz" by simp
  then show ?case by (simp add: strided_for.simps)
next
  case (Suc d)
  then have lt: "i < sz" and idx: "index = i * stride" by simp_all
  have inb: "i * stride < length values" using valid_view_offsets(1)[OF assms(1) lt] .
  have next_idx: "Suc i < sz \<longrightarrow> (index + stride) mod 2 ^ 64 = Suc i * stride"
  proof
    assume "Suc i < sz"
    then have "Suc i * stride < 2 ^ 64" using valid_view_offsets(2)[OF assms(1)] by blast
    then show "(index + stride) mod 2 ^ 64 = Suc i * stride" by (simp add: idx)
  qed
  have "strided_for body values sz stride (i + 1) ((index + stride) mod 2 ^ 64) (body (values ! index) st)
        = Some (fold body (map (\<lambda>j. values ! (j * stride)) [Suc i..<sz]) (body (values ! index) st))"
    using Suc.hyps(1)[of "Suc i" "(index + stride) mod 2 ^ 64"] Suc.hyps(2) lt next_idx by simp
  then show ?case
    using lt inb idx by (subst strided_for.simps) (simp add: load_def upt_conv_Cons)
qed

lemma strided_for_fold:
  assumes "valid_view values sz stride"
  shows "strided_for body values sz stride 0 0 st = Some (fold body (visited values sz stride) st)"
  unfolding visited_def by (rule strided_for_fold_from[OF assms]) simp_all

lemma blocks_Cons:
  "a < n \<Longrightarrow> blocks values a n =
     (values ! (4 * a), values ! (4 * a + 1), values ! (4 * a + 2), values ! (4 * a + 3))
       # blocks values (Suc a) n"
  by (simp add: blocks_def upt_conv_Cons)

lemma blocks_Nil: "blocks values n n = []"
  by (simp add: blocks_def)

lemma unrolled_for_fold:
  assumes "4 * n \<le> length values" and "a \<le> n"
  shows "unrolled_for body values (4 * n) (4 * a) st = Some (fold body (blocks values a n) st)"
  using assms(2)
proof (induction "n - a" arbitrary: a st)
  case 0
  then have "\<not> 4 * a < 4 * n" and "a = n" by simp_all
  then show ?case by (subst unrolled_for.simps) (simp add: blocks_Nil)
next
  case (Suc d)
  then have lt: "a < n" by simp
  then have inb: "4 * a + 3 < length values" using assms(1) by linarith
  have s: "4 * Suc a = 4 * a + 4" by simp
  have "unrolled_for body values (4 * n) (4 * a + 4) st' = Some (fold body (blocks values (Suc a) n) st')" for st'
    using Suc.hyps(1)[of "Suc a" st'] Suc.hyps(2) lt unfolding s by simp
  then show ?case
    using lt inb by (subst unrolled_for.simps) (simp add: mm_loadu_ps_def blocks_Cons)
qed

lemma remainder_for_fold:
  assumes "sz \<le> length values" and "i \<le> sz"
  shows "remainder_for body values sz i st = Some (fold body (map (\<lambda>j. values ! j) [i..<sz]) st)"
  using assms(2)
proof (induction "sz - i" arbitrary: i st)
  case 0
  then have "\<not> i < sz" by simp
  then show ?case by (subst remainder_for.simps) simp
next
  case (Suc d)
  then have lt: "i < sz" by simp
  then have inb: "i < length values" using assms(1) by linarith
  have "remainder_for body values sz (Suc i) st' = Some (fold body (map (\<lambda>j. values ! j) [Suc i..<sz]) st')" for st'
    using Suc.hyps(1)[of "Suc i"] Suc.hyps(2) lt by simp
  then show ?case
    using lt inb by (subst remainder_for.simps) (simp add: load_def upt_conv_Cons)
qed

section \<open>Finiteness test, empty input and dispatch\<close>

text \<open>
  Claim C5. The finiteness test is true exactly of the patterns that are neither a NaN nor
  one of the two infinities, and it decides so by masking off the sign bit and comparing
  the rest, as an unsigned integer, with the all-ones-exponent pattern \<open>0x7F800000\<close>.
\<close>

theorem cpu_isFinite_correct:
  "(cpu_isFinite val \<longleftrightarrow> \<not> is_nan val \<and> val \<noteq> pInf \<and> val \<noteq> nInf) \<and>
   (cpu_isFinite val \<longleftrightarrow> (val AND 0x7FFFFFFF) < 0x7F800000)"
  using cpu_isFinite_classify[of val] by (simp add: cpu_isFinite_def)

text \<open>
  Claim C3. With \<open>size = 0\<close> both entry points return the sentinel pair
  \<open>(+Infinity, -Infinity)\<close>, for every buffer, stride and dispatch mode, with or without
  the vector code compiled in; no element is read.
\<close>

theorem scan_empty_is_sentinel:
  "scanArray sse mode values 0 stride = Some (pInf, nInf) \<and>
   unsafeScanArray sse mode values 0 stride = Some (pInf, nInf)"
proof -
  have "select_path sse mode 0 stride = Cpu \<or> select_path sse mode 0 stride = Sse2Strided"
    by (simp add: select_path_def)
  then show ?thesis
    by (auto simp: scanArray_def unsafeScanArray_def cpu_stridedMinMax_def cpu_stridedMinMaxSafe_def
        sse2_stridedMinMax_def sse2_stridedMinMaxSafe_def strided_for.simps mm_set_ss_def)
qed

text \<open>
  Claim C9. The dispatch selects the bulk vector path only with the vector code compiled in,
  a mode other than 1, 2 and 3, \<open>stride = 1\<close> and \<open>size > 8\<close>. Then \<open>size \<ge> 4\<close> holds, the
  offsets 0..3 of the first four-element load are offsets the call visits, and on a buffer
  that holds the view the load succeeds.
\<close>

theorem bulk_path_only_large_contiguous:
  assumes "select_path sse mode sz stride = Sse2Vector"
  shows "sse \<and> mode \<noteq> 1 \<and> mode \<noteq> 2 \<and> mode \<noteq> 3 \<and> stride = 1 \<and> 8 < sz \<and> 4 \<le> sz \<and>
         {0, 1, 2, 3} \<subseteq> (\<lambda>i. i * stride) ` {0..<sz} \<and>
         (valid_view values sz stride \<longrightarrow>
            mm_loadu_ps values 0 \<noteq> None)"
proof -
  from assms have c: "sse" "mode \<noteq> 1" "mode \<noteq> 2" "mode \<noteq> 3" "stride = 1" "8 < sz"
    by (auto simp: select_path_def split: if_splits)
  then have "(\<lambda>i. i * stride) ` {0..<sz} = {0..<sz}" by simp
  with c show ?thesis
    by (auto simp: valid_view_def mm_loadu_ps_def)
qed

theorem bulk_path_only_large_contiguous_witness:
  "select_path True 0 9 1 = Sse2Vector \<and> (4::nat) \<le> 9 \<and>
   mm_loadu_ps [1, 2, 3, 4, 5, 6, 7, 8, 9] 0 = Some (1, 2, 3, 4)"
  using bulk_path_only_large_contiguous[of True 0 9 1 "[1, 2, 3, 4, 5, 6, 7, 8, 9]"]
  by (simp add: select_path_def valid_view_def mm_loadu_ps_def)

section \<open>Evaluation on concrete inputs\<close>

text \<open>The defining equations that evaluate a call on a concrete buffer.\<close>

lemmas eval_simps = scanArray_def unsafeScanArray_def select_path_def cpu_stridedMinMax_def
  cpu_stridedMinMaxSafe_def sse2_stridedMinMax_def sse2_stridedMinMaxSafe_def sse2_vectorMinMax_def
  sse2_vectorMinMaxSafe_def strided_for.simps unrolled_for.simps remainder_for.simps load_def
  mm_loadu_ps_def mm_set_ss_def mm_set1_ps_def min_lane_def max_lane_def flt_def fgt_def feq_def
  fle_def is_nan_def exponent_def mantissa_def fval_def pInf_def nInf_def cpu_isFinite_def
  isValid_mask_def masked_temp_def cmpord_lane_def cmpneq_lane_def sse2_reduceMinMax_def
  mm_shuffle_ps_def MM_SHUFFLE_def valid_view_def visited_def Let_def

section \<open>Accumulators as least elements\<close>

lemma min_lane_pick: "\<not> is_nan a \<Longrightarrow> \<not> is_nan b \<Longrightarrow> min_lane a b = pick fval a b"
  by (simp add: min_lane_def pick_def flt_def)

lemma max_lane_pick: "\<not> is_nan a \<Longrightarrow> \<not> is_nan b \<Longrightarrow> max_lane a b = pick nfval a b"
  by (simp add: max_lane_def pick_def fgt_def flt_def nfval_def)

text \<open>
  A NaN in the second operand comes out of \<open>MINSS\<close> and \<open>MAXSS\<close>: this is how a NaN enters the
  accumulators of the unsafe strided vector loop, which the scalar loop never lets in.
\<close>

lemma min_lane_nan_right: "is_nan b \<Longrightarrow> min_lane a b = b"
  by (simp add: min_lane_def flt_def)

lemma max_lane_nan_right: "is_nan b \<Longrightarrow> max_lane a b = b"
  by (simp add: max_lane_def fgt_def flt_def)

lemma min_lane_same: "min_lane a a = a"
  by (simp add: min_lane_def)

lemma max_lane_same: "max_lane a a = a"
  by (simp add: max_lane_def)

lemma pick_cases: "pick k a b = a \<or> pick k a b = b"
  by (simp add: pick_def)

lemma pick_le: "k (pick k a b) \<le> k a" "k (pick k a b) \<le> k b"
  by (simp_all add: pick_def)

lemma pick_not_nan: "\<not> is_nan a \<Longrightarrow> \<not> is_nan b \<Longrightarrow> \<not> is_nan (pick k a b)"
  by (simp add: pick_def)

lemma ext_inv_insert:
  assumes "ext_inv k seed m S" and "\<not> is_nan v" and "m' = m \<or> m' = v"
    and "k m' \<le> k m" and "k m' \<le> k v"
  shows "ext_inv k seed m' (insert v S)"
proof -
  from assms(1) have nn: "\<not> is_nan m" and mem: "m = seed \<or> m \<in> S" and le: "\<forall>x\<in>S. k m \<le> k x"
    by (simp_all add: ext_inv_def)
  from assms(2,3) nn have "\<not> is_nan m'" by auto
  moreover from assms(3) mem have "m' = seed \<or> m' \<in> insert v S" by auto
  moreover have "\<forall>x\<in>insert v S. k m' \<le> k x"
  proof
    fix x assume "x \<in> insert v S"
    then show "k m' \<le> k x"
    proof
      assume "x = v" with assms(5) show ?thesis by simp
    next
      assume "x \<in> S" with le have "k m \<le> k x" by simp
      with assms(4) show ?thesis by simp
    qed
  qed
  ultimately show ?thesis by (simp add: ext_inv_def)
qed

lemma ext_inv_pick:
  assumes "ext_inv k seed m S" and "\<not> is_nan v"
  shows "ext_inv k seed (pick k m v) (insert v S)" and "ext_inv k seed (pick k v m) (insert v S)"
  by (rule ext_inv_insert[OF assms], rule pick_cases, rule pick_le, rule pick_le)
     (rule ext_inv_insert[OF assms], use pick_cases[of k v m] in blast, rule pick_le, rule pick_le)

lemma ext_inv_not_nan: "ext_inv k seed m S \<Longrightarrow> \<not> is_nan m"
  by (simp add: ext_inv_def)

lemma ext_inv_seed: "\<not> is_nan seed \<Longrightarrow> ext_inv k seed seed {}"
  by (simp add: ext_inv_def)

text \<open>One step of each scalar loop body keeps the invariant.\<close>

lemma cpu_body_eq:
  "cpu_stridedMinMax_body v (mn, mx) =
     (if is_nan v \<or> is_nan mn then mn else pick fval v mn,
      if is_nan v \<or> is_nan mx then mx else pick nfval v mx)"
  by (simp add: flt_def fgt_def pick_def nfval_def)

lemma range_inv_cpu_body:
  assumes "range_inv r S"
  shows "range_inv (cpu_stridedMinMax_body v r) (if \<not> is_nan v then insert v S else S)"
proof (cases r)
  case (Pair mn mx)
  with assms have i: "ext_inv fval pInf mn S" "ext_inv nfval nInf mx S"
    by (simp_all add: range_inv_def)
  then have nn: "\<not> is_nan mn" "\<not> is_nan mx" by (simp_all add: ext_inv_not_nan)
  show ?thesis
  proof (cases "is_nan v")
    case True
    with Pair assms show ?thesis
      by (simp add: cpu_body_eq del: cpu_stridedMinMax_body.simps)
  next
    case False
    with i nn Pair show ?thesis
      by (simp add: cpu_body_eq range_inv_def ext_inv_pick del: cpu_stridedMinMax_body.simps)
  qed
qed

lemma range_inv_cpu_safe_body:
  assumes "range_inv r S"
  shows "range_inv (cpu_stridedMinMaxSafe_body v r) (if cpu_isFinite v then insert v S else S)"
proof (cases r)
  case (Pair mn mx)
  show ?thesis
  proof (cases "cpu_isFinite v")
    case True
    then have nn: "\<not> is_nan v" by (simp add: cpu_isFinite_classify)
    have "cpu_stridedMinMaxSafe_body v r = cpu_stridedMinMax_body v r"
      using True Pair by simp
    with range_inv_cpu_body[OF assms, of v] nn True show ?thesis by simp
  next
    case False
    with Pair assms show ?thesis by simp
  qed
qed

lemma fold_invariant:
  assumes "I st S"
    and "\<And>v st S. v \<in> set xs \<Longrightarrow> I st S \<Longrightarrow> I (body v st) (if q v then insert v S else S)"
  shows "I (fold body xs st) (S \<union> {x \<in> set xs. q x})"
  using assms
proof (induction xs arbitrary: st S)
  case Nil
  then show ?case by simp
next
  case (Cons a xs)
  have "I (body a st) (if q a then insert a S else S)"
    using Cons.prems by simp
  then have "I (fold body xs (body a st)) ((if q a then insert a S else S) \<union> {x \<in> set xs. q x})"
    using Cons.prems(2) by (intro Cons.IH) simp_all
  moreover have "(if q a then insert a S else S) \<union> {x \<in> set xs. q x} = S \<union> {x \<in> set (a # xs). q x}"
    by auto
  ultimately show ?case by simp
qed

lemma range_inv_seed: "range_inv (pInf, nInf) {}"
  by (simp add: range_inv_def ext_inv_seed not_nan_pInf not_nan_nInf)

lemma cpu_stridedMinMax_range:
  assumes "valid_view values sz stride"
  shows "\<exists>r. cpu_stridedMinMax values sz stride = Some r \<and>
             r = fold cpu_stridedMinMax_body (visited values sz stride) (pInf, nInf) \<and>
             range_inv r {x \<in> set (visited values sz stride). \<not> is_nan x}"
proof -
  have "range_inv (fold cpu_stridedMinMax_body (visited values sz stride) (pInf, nInf))
          ({} \<union> {x \<in> set (visited values sz stride). \<not> is_nan x})"
    by (rule fold_invariant[where I = range_inv, OF range_inv_seed]) (rule range_inv_cpu_body)
  then show ?thesis
    by (simp add: cpu_stridedMinMax_def strided_for_fold[OF assms])
qed

lemma cpu_stridedMinMaxSafe_range:
  assumes "valid_view values sz stride"
  shows "\<exists>r. cpu_stridedMinMaxSafe values sz stride = Some r \<and>
             range_inv r {x \<in> set (visited values sz stride). cpu_isFinite x}"
proof -
  have "range_inv (fold cpu_stridedMinMaxSafe_body (visited values sz stride) (pInf, nInf))
          ({} \<union> {x \<in> set (visited values sz stride). cpu_isFinite x})"
    by (rule fold_invariant[where I = range_inv, OF range_inv_seed]) (rule range_inv_cpu_safe_body)
  then show ?thesis
    by (simp add: cpu_stridedMinMaxSafe_def strided_for_fold[OF assms])
qed

section \<open>The strided vector loops\<close>

lemma feq_pInf_iff: "feq t pInf \<longleftrightarrow> t = pInf"
  using fval_eq_pInf[of t] by (auto simp: feq_def fval_pInf not_nan_pInf)

lemma feq_nInf_iff: "feq t nInf \<longleftrightarrow> t = nInf"
  using fval_eq_nInf[of t] by (auto simp: feq_def fval_nInf not_nan_nInf)

lemma isValid_lane:
  "(cmpord_lane t t AND cmpneq_lane t pInf) AND cmpneq_lane t nInf =
     (if cpu_isFinite t then 0xFFFFFFFF else 0)"
  by (simp add: cmpord_lane_def cmpneq_lane_def feq_pInf_iff feq_nInf_iff cpu_isFinite_classify)

lemma masked_lane:
  "(((cmpord_lane t t AND cmpneq_lane t pInf) AND cmpneq_lane t nInf) AND t) OR
   (NOT ((cmpord_lane t t AND cmpneq_lane t pInf) AND cmpneq_lane t nInf) AND r) = select_finite t r"
proof -
  have ones: "(0xFFFFFFFF :: 32 word) = - 1" by simp
  show ?thesis
    unfolding isValid_lane select_finite_def by (simp only: ones) simp
qed

lemma masked_temp_eq:
  "masked_temp (isValid_mask (t0, t1, t2, t3)) (t0, t1, t2, t3) (r0, r1, r2, r3) =
     (select_finite t0 r0, select_finite t1 r1, select_finite t2 r2, select_finite t3 r3)"
  by (simp only: masked_temp_def isValid_mask_def mm_set1_ps_def mm_cmpord_ps.simps
      mm_cmpneq_ps.simps mm_and_ps.simps mm_andnot_ps.simps mm_or_ps.simps masked_lane)

lemma sse2_stridedMinMax_body_eq:
  "sse2_stridedMinMax_body v ((a0, a1, a2, a3), (b0, b1, b2, b3)) =
     ((min_lane a0 v, a1, a2, a3), (max_lane b0 v, b1, b2, b3))"
  by (simp add: mm_set_ss_def)

lemma sse2_stridedMinMaxSafe_body_eq:
  "sse2_stridedMinMaxSafe_body v ((a0, a1, a2, a3), (b0, b1, b2, b3)) =
     ((min_lane a0 (select_finite v a0), a1, a2, a3), (max_lane b0 (select_finite v b0), b1, b2, b3))"
  by (simp add: mm_set_ss_def masked_temp_eq Let_def)

lemma sse2_stridedMinMaxSafe_body_cases:
  "sse2_stridedMinMaxSafe_body v st = (if cpu_isFinite v then sse2_stridedMinMax_body v st else st)"
proof -
  obtain a0 a1 a2 a3 b0 b1 b2 b3 where st: "st = ((a0, a1, a2, a3), (b0, b1, b2, b3))"
    by (metis prod_cases4 surj_pair)
  show ?thesis
    unfolding st sse2_stridedMinMaxSafe_body_eq sse2_stridedMinMax_body_eq
    by (simp add: select_finite_def min_lane_same max_lane_same)
qed

lemma proj0_strided_body:
  "proj0 (sse2_stridedMinMax_body v st) = (min_lane (fst (proj0 st)) v, max_lane (snd (proj0 st)) v)"
proof -
  obtain a0 a1 a2 a3 b0 b1 b2 b3 where st: "st = ((a0, a1, a2, a3), (b0, b1, b2, b3))"
    by (metis prod_cases4 surj_pair)
  show ?thesis
    unfolding st sse2_stridedMinMax_body_eq by (simp add: proj0_def)
qed

lemma range_inv_sse2_strided_body:
  assumes "range_inv (proj0 st) S" and "\<not> is_nan v"
  shows "range_inv (proj0 (sse2_stridedMinMax_body v st)) (insert v S)"
proof -
  from assms(1) have i: "ext_inv fval pInf (fst (proj0 st)) S" "ext_inv nfval nInf (snd (proj0 st)) S"
    by (simp_all add: range_inv_def)
  then have nn: "\<not> is_nan (fst (proj0 st))" "\<not> is_nan (snd (proj0 st))"
    by (simp_all add: ext_inv_not_nan)
  show ?thesis
    unfolding proj0_strided_body range_inv_def
    using i nn assms(2) by (simp add: min_lane_pick max_lane_pick ext_inv_pick)
qed

lemma range_inv_sse2_stridedSafe_body:
  assumes "range_inv (proj0 st) S"
  shows "range_inv (proj0 (sse2_stridedMinMaxSafe_body v st)) (if cpu_isFinite v then insert v S else S)"
proof (cases "cpu_isFinite v")
  case True
  then have "\<not> is_nan v" by (simp add: cpu_isFinite_classify)
  from range_inv_sse2_strided_body[OF assms this] True show ?thesis
    by (simp add: sse2_stridedMinMaxSafe_body_cases)
next
  case False
  with assms show ?thesis by (simp add: sse2_stridedMinMaxSafe_body_cases)
qed

lemma proj0_seed: "range_inv (proj0 (mm_set_ss pInf, mm_set_ss nInf)) {}"
  by (simp add: proj0_def mm_set_ss_def range_inv_seed)

lemma strided_result: "(case st of (minVal, maxVal) \<Rightarrow> Some (mm_store_ss minVal, mm_store_ss maxVal)) = Some (proj0 st)"
  by (cases st) (simp add: proj0_def)

lemma sse2_stridedMinMax_fold:
  assumes "valid_view values sz stride"
  shows "sse2_stridedMinMax values sz stride =
         Some (proj0 (fold sse2_stridedMinMax_body (visited values sz stride) (mm_set_ss pInf, mm_set_ss nInf)))"
  by (simp add: sse2_stridedMinMax_def strided_for_fold[OF assms] strided_result)

lemma sse2_stridedMinMaxSafe_fold:
  assumes "valid_view values sz stride"
  shows "sse2_stridedMinMaxSafe values sz stride =
         Some (proj0 (fold sse2_stridedMinMaxSafe_body (visited values sz stride) (mm_set_ss pInf, mm_set_ss nInf)))"
  by (simp add: sse2_stridedMinMaxSafe_def strided_for_fold[OF assms] strided_result)

lemma sse2_stridedMinMax_range:
  assumes "valid_view values sz stride" and "\<forall>x\<in>set (visited values sz stride). \<not> is_nan x"
  shows "\<exists>r. sse2_stridedMinMax values sz stride = Some r \<and>
             range_inv r {x \<in> set (visited values sz stride). \<not> is_nan x}"
proof -
  have "range_inv (proj0 (fold sse2_stridedMinMax_body (visited values sz stride) (mm_set_ss pInf, mm_set_ss nInf)))
          ({} \<union> {x \<in> set (visited values sz stride). \<not> is_nan x})"
    by (rule fold_invariant[where I = "\<lambda>st. range_inv (proj0 st)", OF proj0_seed])
       (use assms(2) range_inv_sse2_strided_body in simp)
  then show ?thesis
    by (simp add: sse2_stridedMinMax_fold[OF assms(1)])
qed

lemma sse2_stridedMinMaxSafe_range:
  assumes "valid_view values sz stride"
  shows "\<exists>r. sse2_stridedMinMaxSafe values sz stride = Some r \<and>
             range_inv r {x \<in> set (visited values sz stride). cpu_isFinite x}"
proof -
  have "range_inv (proj0 (fold sse2_stridedMinMaxSafe_body (visited values sz stride) (mm_set_ss pInf, mm_set_ss nInf)))
          ({} \<union> {x \<in> set (visited values sz stride). cpu_isFinite x})"
    by (rule fold_invariant[where I = "\<lambda>st. range_inv (proj0 st)", OF proj0_seed])
       (rule range_inv_sse2_stridedSafe_body)
  then show ?thesis
    by (simp add: sse2_stridedMinMaxSafe_fold[OF assms(1)])
qed

section \<open>Four-lane accumulators\<close>

lemma lanes_inv_update:
  assumes inv: "lanes_inv k seed (m0, m1, m2, m3) S"
    and S': "S' = S \<union> N"
    and ok: "lane_ok k seed S' m0 n0" "lane_ok k seed S' m1 n1" "lane_ok k seed S' m2 n2"
            "lane_ok k seed S' m3 n3"
    and cover: "\<forall>x\<in>N. k n0 \<le> k x \<or> k n1 \<le> k x \<or> k n2 \<le> k x \<or> k n3 \<le> k x"
  shows "lanes_inv k seed (n0, n1, n2, n3) S'"
proof -
  have a: "\<forall>m\<in>lanes (n0, n1, n2, n3). \<not> is_nan m \<and> (m = seed \<or> m \<in> S')"
    using ok by (simp add: lane_ok_def)
  have b: "\<exists>m\<in>lanes (n0, n1, n2, n3). k m \<le> k x" if x: "x \<in> S'" for x
  proof (cases "x \<in> N")
    case True
    with cover show ?thesis by auto
  next
    case False
    with x S' have "x \<in> S" by simp
    with inv have "k m0 \<le> k x \<or> k m1 \<le> k x \<or> k m2 \<le> k x \<or> k m3 \<le> k x"
      by (auto simp: lanes_inv_def)
    moreover from ok have "k n0 \<le> k m0" "k n1 \<le> k m1" "k n2 \<le> k m2" "k n3 \<le> k m3"
      by (simp_all add: lane_ok_def)
    ultimately have "k n0 \<le> k x \<or> k n1 \<le> k x \<or> k n2 \<le> k x \<or> k n3 \<le> k x"
      by linarith
    then show ?thesis by auto
  qed
  from a b show ?thesis unfolding lanes_inv_def by blast
qed

lemma lanes_inv_lane:
  assumes "lanes_inv k seed (m0, m1, m2, m3) S"
  shows "\<not> is_nan m0" "\<not> is_nan m1" "\<not> is_nan m2" "\<not> is_nan m3"
    "m0 = seed \<or> m0 \<in> S" "m1 = seed \<or> m1 \<in> S" "m2 = seed \<or> m2 \<in> S" "m3 = seed \<or> m3 \<in> S"
  using assms by (simp_all add: lanes_inv_def)

text \<open>A lane that takes the lesser of itself and a new element, or keeps itself.\<close>

lemma lane_ok_keep:
  assumes "\<not> is_nan m" and "m = seed \<or> m \<in> S" and "S \<subseteq> S'"
  shows "lane_ok k seed S' m m"
  using assms by (auto simp: lane_ok_def)

lemma lane_ok_pick:
  assumes "\<not> is_nan m" and "m = seed \<or> m \<in> S" and "S \<subseteq> S'" and "\<not> is_nan t" and "t \<in> S'"
  shows "lane_ok k seed S' m (pick k t m)" and "lane_ok k seed S' m (pick k m t)"
  using assms pick_cases[of k t m] pick_cases[of k m t] pick_le[of k t m] pick_le[of k m t]
  by (auto simp: lane_ok_def)

lemma lane_ok_select:
  assumes "\<not> is_nan m" and "m = seed \<or> m \<in> S" and "S \<subseteq> S'" and "q t \<Longrightarrow> \<not> is_nan t \<and> t \<in> S'"
  shows "lane_ok k seed S' m (if q t then pick k t m else m)"
  using lane_ok_keep[OF assms(1-3)] lane_ok_pick(1)[OF assms(1-3)] assms(4) by simp

lemma lanes_inv_block_step:
  assumes inv: "lanes_inv k seed (m0, m1, m2, m3) S"
    and q: "\<And>x. q x \<Longrightarrow> \<not> is_nan x"
  shows "lanes_inv k seed
           (if q t0 then pick k t0 m0 else m0, if q t1 then pick k t1 m1 else m1,
            if q t2 then pick k t2 m2 else m2, if q t3 then pick k t3 m3 else m3)
           (S \<union> {x \<in> lanes (t0, t1, t2, t3). q x})"
proof (rule lanes_inv_update[OF inv refl])
  let ?S' = "S \<union> {x \<in> lanes (t0, t1, t2, t3). q x}"
  note l = lanes_inv_lane[OF inv]
  have sub: "S \<subseteq> ?S'" by blast
  show "lane_ok k seed ?S' m0 (if q t0 then pick k t0 m0 else m0)"
    by (rule lane_ok_select[OF l(1) l(5) sub]) (simp add: q)
  show "lane_ok k seed ?S' m1 (if q t1 then pick k t1 m1 else m1)"
    by (rule lane_ok_select[OF l(2) l(6) sub]) (simp add: q)
  show "lane_ok k seed ?S' m2 (if q t2 then pick k t2 m2 else m2)"
    by (rule lane_ok_select[OF l(3) l(7) sub]) (simp add: q)
  show "lane_ok k seed ?S' m3 (if q t3 then pick k t3 m3 else m3)"
    by (rule lane_ok_select[OF l(4) l(8) sub]) (simp add: q)
  show "\<forall>x\<in>{x \<in> lanes (t0, t1, t2, t3). q x}.
          k (if q t0 then pick k t0 m0 else m0) \<le> k x \<or> k (if q t1 then pick k t1 m1 else m1) \<le> k x \<or>
          k (if q t2 then pick k t2 m2 else m2) \<le> k x \<or> k (if q t3 then pick k t3 m3 else m3) \<le> k x"
    using pick_le(1)[of k t0 m0] pick_le(1)[of k t1 m1] pick_le(1)[of k t2 m2] pick_le(1)[of k t3 m3]
    by auto
qed

lemma lanes_inv_tail_step:
  assumes inv: "lanes_inv k seed (m0, m1, m2, m3) S" and q: "q v \<Longrightarrow> \<not> is_nan v"
  shows "lanes_inv k seed (if q v then pick k m0 v else m0, m1, m2, m3)
           (if q v then insert v S else S)"
proof (cases "q v")
  case True
  note l = lanes_inv_lane[OF inv]
  have sub: "S \<subseteq> insert v S" by blast
  have "lanes_inv k seed (pick k m0 v, m1, m2, m3) (insert v S)"
  proof (rule lanes_inv_update[OF inv])
    show "insert v S = S \<union> {v}" by simp
    show "lane_ok k seed (insert v S) m0 (pick k m0 v)"
      by (rule lane_ok_pick(2)[OF l(1) l(5) sub]) (simp_all add: q True)
    show "lane_ok k seed (insert v S) m1 m1" by (rule lane_ok_keep[OF l(2) l(6) sub])
    show "lane_ok k seed (insert v S) m2 m2" by (rule lane_ok_keep[OF l(3) l(7) sub])
    show "lane_ok k seed (insert v S) m3 m3" by (rule lane_ok_keep[OF l(4) l(8) sub])
    show "\<forall>x\<in>{v}. k (pick k m0 v) \<le> k x \<or> k m1 \<le> k x \<or> k m2 \<le> k x \<or> k m3 \<le> k x"
      by (simp add: pick_le)
  qed
  with True show ?thesis by simp
next
  case False
  with inv show ?thesis by simp
qed

lemma lanes_inv_reduce:
  assumes inv: "lanes_inv k seed (m0, m1, m2, m3) S"
  shows "ext_inv k seed (pick k (pick k m0 m3) (pick k m2 m1)) S"
proof -
  let ?r = "pick k (pick k m0 m3) (pick k m2 m1)"
  note l = lanes_inv_lane[OF inv]
  have mem: "?r = m0 \<or> ?r = m1 \<or> ?r = m2 \<or> ?r = m3"
    using pick_cases[of k "pick k m0 m3" "pick k m2 m1"] pick_cases[of k m0 m3] pick_cases[of k m2 m1]
    by auto
  have le: "k ?r \<le> k m0" "k ?r \<le> k m1" "k ?r \<le> k m2" "k ?r \<le> k m3"
    using pick_le[of k "pick k m0 m3" "pick k m2 m1"] pick_le[of k m0 m3] pick_le[of k m2 m1]
    by linarith+
  have "\<not> is_nan ?r" using mem l(1-4) by auto
  moreover have "?r = seed \<or> ?r \<in> S" using mem l(5-8) by auto
  moreover have "\<forall>x\<in>S. k ?r \<le> k x"
  proof
    fix x assume "x \<in> S"
    with inv have "k m0 \<le> k x \<or> k m1 \<le> k x \<or> k m2 \<le> k x \<or> k m3 \<le> k x"
      by (auto simp: lanes_inv_def)
    with le show "k ?r \<le> k x" by linarith
  qed
  ultimately show ?thesis by (simp add: ext_inv_def)
qed

section \<open>The bodies of the bulk loops\<close>

lemma m128_pair_cases:
  obtains a0 a1 a2 a3 b0 b1 b2 b3 where "st = ((a0, a1, a2, a3), (b0, b1, b2, b3))"
  by (metis prod_cases4 surj_pair)

lemma m128_cases:
  obtains t0 t1 t2 t3 where "t = (t0, t1, t2, t3)"
  by (metis prod_cases4)

lemma sse2_reduceMinMax_eq:
  "sse2_reduceMinMax (a0, a1, a2, a3) (b0, b1, b2, b3) =
     (min_lane (min_lane a0 a3) (min_lane a2 a1), max_lane (max_lane b0 b3) (max_lane b2 b1))"
  by (simp add: sse2_reduceMinMax_def mm_shuffle_ps_def MM_SHUFFLE_def)

lemma vec_inv_reduce:
  assumes "vec_inv st S"
  shows "range_inv (reduce_state st) S"
proof -
  obtain a0 a1 a2 a3 b0 b1 b2 b3 where st: "st = ((a0, a1, a2, a3), (b0, b1, b2, b3))"
    by (rule m128_pair_cases)
  from assms have a: "lanes_inv fval pInf (a0, a1, a2, a3) S"
    and b: "lanes_inv nfval nInf (b0, b1, b2, b3) S"
    by (simp_all add: vec_inv_def st)
  note la = lanes_inv_lane(1-4)[OF a] and lb = lanes_inv_lane(1-4)[OF b]
  have "min_lane (min_lane a0 a3) (min_lane a2 a1) = pick fval (pick fval a0 a3) (pick fval a2 a1)"
    using la by (simp add: min_lane_pick pick_not_nan)
  moreover have "max_lane (max_lane b0 b3) (max_lane b2 b1) = pick nfval (pick nfval b0 b3) (pick nfval b2 b1)"
    using lb by (simp add: max_lane_pick pick_not_nan)
  ultimately show ?thesis
    using lanes_inv_reduce[OF a] lanes_inv_reduce[OF b]
    by (simp add: reduce_state_def st sse2_reduceMinMax_eq range_inv_def)
qed

lemma vec_inv_vector_body:
  assumes inv: "vec_inv st S" and nn: "\<forall>x\<in>lanes t. \<not> is_nan x"
  shows "vec_inv (sse2_vectorMinMax_body t st) (S \<union> {x \<in> lanes t. \<not> is_nan x})"
proof -
  obtain a0 a1 a2 a3 b0 b1 b2 b3 where st: "st = ((a0, a1, a2, a3), (b0, b1, b2, b3))"
    by (rule m128_pair_cases)
  obtain t0 t1 t2 t3 where t: "t = (t0, t1, t2, t3)" by (rule m128_cases)
  from inv have a: "lanes_inv fval pInf (a0, a1, a2, a3) S"
    and b: "lanes_inv nfval nInf (b0, b1, b2, b3) S"
    by (simp_all add: vec_inv_def st)
  note la = lanes_inv_lane(1-4)[OF a] and lb = lanes_inv_lane(1-4)[OF b]
  from nn have tn: "\<not> is_nan t0" "\<not> is_nan t1" "\<not> is_nan t2" "\<not> is_nan t3" by (simp_all add: t)
  have "sse2_vectorMinMax_body t st =
          ((if \<not> is_nan t0 then pick fval t0 a0 else a0, if \<not> is_nan t1 then pick fval t1 a1 else a1,
            if \<not> is_nan t2 then pick fval t2 a2 else a2, if \<not> is_nan t3 then pick fval t3 a3 else a3),
           (if \<not> is_nan t0 then pick nfval t0 b0 else b0, if \<not> is_nan t1 then pick nfval t1 b1 else b1,
            if \<not> is_nan t2 then pick nfval t2 b2 else b2, if \<not> is_nan t3 then pick nfval t3 b3 else b3))"
    using la lb tn by (simp add: st t min_lane_pick max_lane_pick)
  then show ?thesis
    using lanes_inv_block_step[OF a, of "\<lambda>x. \<not> is_nan x" t0 t1 t2 t3]
          lanes_inv_block_step[OF b, of "\<lambda>x. \<not> is_nan x" t0 t1 t2 t3]
    by (simp add: vec_inv_def t)
qed

lemma min_lane_select:
  assumes "\<not> is_nan a"
  shows "min_lane (select_finite t a) a = (if cpu_isFinite t then pick fval t a else a)"
proof (cases "cpu_isFinite t")
  case True
  then have "\<not> is_nan t" using cpu_isFinite_classify by blast
  with True assms show ?thesis by (simp add: select_finite_def min_lane_pick)
next
  case False
  then show ?thesis by (simp add: select_finite_def min_lane_same)
qed

lemma max_lane_select:
  assumes "\<not> is_nan a"
  shows "max_lane (select_finite t a) a = (if cpu_isFinite t then pick nfval t a else a)"
proof (cases "cpu_isFinite t")
  case True
  then have "\<not> is_nan t" using cpu_isFinite_classify by blast
  with True assms show ?thesis by (simp add: select_finite_def max_lane_pick)
next
  case False
  then show ?thesis by (simp add: select_finite_def max_lane_same)
qed

lemma sse2_vectorMinMaxSafe_body_eq:
  "sse2_vectorMinMaxSafe_body (t0, t1, t2, t3) ((a0, a1, a2, a3), (b0, b1, b2, b3)) =
     ((min_lane (select_finite t0 a0) a0, min_lane (select_finite t1 a1) a1,
       min_lane (select_finite t2 a2) a2, min_lane (select_finite t3 a3) a3),
      (max_lane (select_finite t0 b0) b0, max_lane (select_finite t1 b1) b1,
       max_lane (select_finite t2 b2) b2, max_lane (select_finite t3 b3) b3))"
  by (simp add: masked_temp_eq Let_def)

lemma vec_inv_vectorSafe_body:
  assumes inv: "vec_inv st S"
  shows "vec_inv (sse2_vectorMinMaxSafe_body t st) (S \<union> {x \<in> lanes t. cpu_isFinite x})"
proof -
  obtain a0 a1 a2 a3 b0 b1 b2 b3 where st: "st = ((a0, a1, a2, a3), (b0, b1, b2, b3))"
    by (rule m128_pair_cases)
  obtain t0 t1 t2 t3 where t: "t = (t0, t1, t2, t3)" by (rule m128_cases)
  from inv have a: "lanes_inv fval pInf (a0, a1, a2, a3) S"
    and b: "lanes_inv nfval nInf (b0, b1, b2, b3) S"
    by (simp_all add: vec_inv_def st)
  note la = lanes_inv_lane(1-4)[OF a] and lb = lanes_inv_lane(1-4)[OF b]
  have fin: "\<And>x. cpu_isFinite x \<Longrightarrow> \<not> is_nan x" by (simp add: cpu_isFinite_classify)
  show ?thesis
    unfolding st t sse2_vectorMinMaxSafe_body_eq
    using lanes_inv_block_step[OF a fin, of cpu_isFinite t0 t1 t2 t3]
          lanes_inv_block_step[OF b fin, of cpu_isFinite t0 t1 t2 t3] la lb
    by (simp add: vec_inv_def min_lane_select max_lane_select)
qed

lemma vec_inv_tail_body:
  assumes inv: "vec_inv st S" and nn: "\<not> is_nan v"
  shows "vec_inv (sse2_stridedMinMax_body v st) (if \<not> is_nan v then insert v S else S)"
proof -
  obtain a0 a1 a2 a3 b0 b1 b2 b3 where st: "st = ((a0, a1, a2, a3), (b0, b1, b2, b3))"
    by (rule m128_pair_cases)
  from inv have a: "lanes_inv fval pInf (a0, a1, a2, a3) S"
    and b: "lanes_inv nfval nInf (b0, b1, b2, b3) S"
    by (simp_all add: vec_inv_def st)
  note la = lanes_inv_lane(1-4)[OF a] and lb = lanes_inv_lane(1-4)[OF b]
  show ?thesis
    unfolding st sse2_stridedMinMax_body_eq
    using lanes_inv_tail_step[OF a, of "\<lambda>x. \<not> is_nan x" v]
          lanes_inv_tail_step[OF b, of "\<lambda>x. \<not> is_nan x" v] la lb nn
    by (simp add: vec_inv_def min_lane_pick max_lane_pick)
qed

lemma vec_inv_tailSafe_body:
  assumes inv: "vec_inv st S"
  shows "vec_inv (sse2_stridedMinMaxSafe_body v st) (if cpu_isFinite v then insert v S else S)"
proof (cases "cpu_isFinite v")
  case True
  then have "\<not> is_nan v" by (simp add: cpu_isFinite_classify)
  from vec_inv_tail_body[OF inv this] this True show ?thesis
    by (simp add: sse2_stridedMinMaxSafe_body_cases)
next
  case False
  with inv show ?thesis by (simp add: sse2_stridedMinMaxSafe_body_cases)
qed

lemma fold_invariant_blocks:
  assumes "I st S"
    and "\<And>t st S. t \<in> set ts \<Longrightarrow> I st S \<Longrightarrow> I (body t st) (S \<union> {x \<in> lanes t. q x})"
  shows "I (fold body ts st) (S \<union> {x \<in> (\<Union>t\<in>set ts. lanes t). q x})"
  using assms
proof (induction ts arbitrary: st S)
  case Nil
  then show ?case by simp
next
  case (Cons a ts)
  have "I (body a st) (S \<union> {x \<in> lanes a. q x})"
    using Cons.prems by simp
  then have "I (fold body ts (body a st)) ((S \<union> {x \<in> lanes a. q x}) \<union> {x \<in> (\<Union>t\<in>set ts. lanes t). q x})"
    using Cons.prems(2) by (intro Cons.IH) simp_all
  moreover have "(S \<union> {x \<in> lanes a. q x}) \<union> {x \<in> (\<Union>t\<in>set ts. lanes t). q x}
                 = S \<union> {x \<in> (\<Union>t\<in>set (a # ts). lanes t). q x}"
    by auto
  ultimately show ?case by simp
qed

lemma blocks_snoc: "a \<le> n \<Longrightarrow> blocks values a (Suc n) =
    blocks values a n @ [(values ! (4 * n), values ! (4 * n + 1), values ! (4 * n + 2), values ! (4 * n + 3))]"
  by (simp add: blocks_def)

lemma blocks_lanes: "(\<Union>t\<in>set (blocks values a n). lanes t) = (\<lambda>i. values ! i) ` {4 * a..<4 * n}"
proof (induction n)
  case 0
  then show ?case by (simp add: blocks_def)
next
  case (Suc n)
  show ?case
  proof (cases "a \<le> n")
    case True
    have "{4 * a..<4 * Suc n} = {4 * a..<4 * n} \<union> {4 * n, 4 * n + 1, 4 * n + 2, 4 * n + 3}"
      using True by auto
    then show ?thesis
      using Suc True by (simp add: blocks_snoc image_Un Un_commute)
  next
    case False
    then show ?thesis by (simp add: blocks_def)
  qed
qed

lemma visited_contiguous: "visited values sz 1 = map (\<lambda>i. values ! i) [0..<sz]"
  by (simp add: visited_def)

lemma valid_view_contiguous: "valid_view values sz 1 \<Longrightarrow> sz \<le> length values"
  by (auto simp: valid_view_def)

section \<open>The bulk reductions\<close>

lemma mm_loadu_ps_0: "4 \<le> length values \<Longrightarrow> mm_loadu_ps values 0 = Some (block0 values)"
  by (simp add: mm_loadu_ps_def block0_def eval_nat_numeral)

lemma reduce_result:
  "(case st of (minVals, maxVals) \<Rightarrow> Some (sse2_reduceMinMax minVals maxVals)) = Some (reduce_state st)"
  by (cases st) (simp add: reduce_state_def)

lemma sse2_vectorMinMax_fold:
  assumes "sz \<le> length values" and "4 \<le> sz"
  shows "sse2_vectorMinMax values sz =
         Some (reduce_state
           (fold sse2_stridedMinMax_body (map (\<lambda>i. values ! i) [4 * (sz div 4)..<sz])
             (fold sse2_vectorMinMax_body (blocks values 1 (sz div 4)) (block0 values, block0 values))))"
proof -
  let ?n = "sz div 4"
  have n: "1 \<le> ?n" "4 * ?n \<le> sz" "4 * ?n \<le> length values" using assms by auto
  have u: "unrolled_for body values (4 * ?n) 4 st = Some (fold body (blocks values 1 ?n) st)" for body st
    using unrolled_for_fold[OF n(3) n(1), of body st] by simp
  have r: "remainder_for body values sz (4 * ?n) st =
           Some (fold body (map (\<lambda>i. values ! i) [4 * ?n..<sz]) st)" for body st
    by (rule remainder_for_fold[OF assms(1) n(2)])
  have l: "mm_loadu_ps values 0 = Some (block0 values)"
    using assms by (intro mm_loadu_ps_0) simp
  show ?thesis
    unfolding sse2_vectorMinMax_def Let_def mult.commute[of ?n 4]
    by (simp only: l u r bind.simps reduce_result)
qed

lemma sse2_vectorMinMaxSafe_fold:
  assumes "sz \<le> length values"
  shows "sse2_vectorMinMaxSafe values sz =
         Some (reduce_state
           (fold sse2_stridedMinMaxSafe_body (map (\<lambda>i. values ! i) [4 * (sz div 4)..<sz])
             (fold sse2_vectorMinMaxSafe_body (blocks values 0 (sz div 4))
                (mm_set1_ps pInf, mm_set1_ps nInf))))"
proof -
  let ?n = "sz div 4"
  have n: "0 \<le> ?n" "4 * ?n \<le> sz" "4 * ?n \<le> length values" using assms by auto
  have u: "unrolled_for body values (4 * ?n) 0 st = Some (fold body (blocks values 0 ?n) st)" for body st
    using unrolled_for_fold[OF n(3) n(1), of body st] by simp
  have r: "remainder_for body values sz (4 * ?n) st =
           Some (fold body (map (\<lambda>i. values ! i) [4 * ?n..<sz]) st)" for body st
    by (rule remainder_for_fold[OF assms(1) n(2)])
  show ?thesis
    unfolding sse2_vectorMinMaxSafe_def Let_def mult.commute[of ?n 4]
    by (simp only: u r bind.simps reduce_result)
qed

lemma filter_image_Un: "{x \<in> f ` A. q x} \<union> {x \<in> f ` B. q x} = {x \<in> f ` (A \<union> B). q x}"
  by blast

lemma vec_inv_seed: "vec_inv (mm_set1_ps pInf, mm_set1_ps nInf) {}"
  by (simp add: vec_inv_def lanes_inv_def mm_set1_ps_def not_nan_pInf not_nan_nInf)

lemma lanes_block0: "lanes (block0 values) = (\<lambda>i. values ! i) ` {0..<4}"
proof -
  have "{0..<4::nat} = {0, 1, 2, 3}" by auto
  then show ?thesis by (simp add: block0_def)
qed

lemma vec_inv_block0:
  assumes "\<forall>x\<in>lanes t. \<not> is_nan x"
  shows "vec_inv (t, t) (lanes t)"
proof -
  obtain t0 t1 t2 t3 where t: "t = (t0, t1, t2, t3)" by (rule m128_cases)
  show ?thesis using assms unfolding t vec_inv_def lanes_inv_def by auto
qed

lemma sse2_vectorMinMaxSafe_range:
  assumes "valid_view values sz 1"
  shows "\<exists>r. sse2_vectorMinMaxSafe values sz = Some r \<and>
             range_inv r {x \<in> set (visited values sz 1). cpu_isFinite x}"
proof -
  let ?n = "sz div 4" and ?V = "\<lambda>i. values ! i"
  let ?st1 = "fold sse2_vectorMinMaxSafe_body (blocks values 0 ?n) (mm_set1_ps pInf, mm_set1_ps nInf)"
  let ?st2 = "fold sse2_stridedMinMaxSafe_body (map ?V [4 * ?n..<sz]) ?st1"
  have len: "sz \<le> length values" by (rule valid_view_contiguous[OF assms])
  have "vec_inv ?st1 ({} \<union> {x \<in> (\<Union>t\<in>set (blocks values 0 ?n). lanes t). cpu_isFinite x})"
    by (rule fold_invariant_blocks[where I = vec_inv, OF vec_inv_seed]) (rule vec_inv_vectorSafe_body)
  then have 1: "vec_inv ?st1 {x \<in> ?V ` {0..<4 * ?n}. cpu_isFinite x}"
    by (simp add: blocks_lanes)
  have "vec_inv ?st2 ({x \<in> ?V ` {0..<4 * ?n}. cpu_isFinite x} \<union> {x \<in> set (map ?V [4 * ?n..<sz]). cpu_isFinite x})"
    by (rule fold_invariant[where I = vec_inv, OF 1]) (rule vec_inv_tailSafe_body)
  moreover have "{0..<4 * ?n} \<union> {4 * ?n..<sz} = {0..<sz}" by auto
  ultimately have "vec_inv ?st2 {x \<in> ?V ` {0..<sz}. cpu_isFinite x}"
    by (simp add: filter_image_Un)
  then have "range_inv (reduce_state ?st2) {x \<in> set (visited values sz 1). cpu_isFinite x}"
    unfolding visited_contiguous by (simp add: vec_inv_reduce)
  then show ?thesis by (simp add: sse2_vectorMinMaxSafe_fold[OF len])
qed

lemma sse2_vectorMinMax_range:
  assumes "valid_view values sz 1" and "4 \<le> sz"
    and nn: "\<forall>x\<in>set (visited values sz 1). \<not> is_nan x"
  shows "\<exists>r. sse2_vectorMinMax values sz = Some r \<and>
             range_inv r {x \<in> set (visited values sz 1). \<not> is_nan x}"
proof -
  let ?n = "sz div 4" and ?V = "\<lambda>i. values ! i" and ?q = "\<lambda>x. \<not> is_nan x"
  let ?st1 = "fold sse2_vectorMinMax_body (blocks values 1 ?n) (block0 values, block0 values)"
  let ?st2 = "fold sse2_stridedMinMax_body (map ?V [4 * ?n..<sz]) ?st1"
  have len: "sz \<le> length values" by (rule valid_view_contiguous[OF assms(1)])
  have n: "1 \<le> ?n" "4 * ?n \<le> sz" using assms(2) by auto
  from nn have all: "\<forall>i. i < sz \<longrightarrow> \<not> is_nan (values ! i)"
    unfolding visited_contiguous by simp
  have b0: "\<forall>x\<in>lanes (block0 values). \<not> is_nan x"
    using all assms(2) by (auto simp: lanes_block0)
  have bl: "\<forall>x\<in>lanes t. \<not> is_nan x" if "t \<in> set (blocks values 1 ?n)" for t
  proof -
    from that have sub: "lanes t \<subseteq> ?V ` {4 * 1..<4 * ?n}"
      unfolding blocks_lanes[symmetric] by blast
    show ?thesis
    proof
      fix x assume "x \<in> lanes t"
      with sub have "x \<in> ?V ` {4 * 1..<4 * ?n}" by (rule subsetD)
      then obtain i where i: "i < 4 * ?n" "x = values ! i" by auto
      from i(1) have "i < sz" by linarith
      with all i(2) show "\<not> is_nan x" by simp
    qed
  qed
  have tl: "\<not> is_nan v" if "v \<in> set (map ?V [4 * ?n..<sz])" for v
    using that all by auto
  have "vec_inv ?st1 (lanes (block0 values) \<union> {x \<in> (\<Union>t\<in>set (blocks values 1 ?n). lanes t). ?q x})"
    by (rule fold_invariant_blocks[where I = vec_inv, OF vec_inv_block0[OF b0]])
       (rule vec_inv_vector_body, assumption, rule bl)
  moreover have "lanes (block0 values) = {x \<in> ?V ` {0..<4}. ?q x}"
    using b0 by (auto simp: lanes_block0)
  ultimately have 1: "vec_inv ?st1 {x \<in> ?V ` ({0..<4} \<union> {4..<4 * ?n}). ?q x}"
    by (simp add: blocks_lanes filter_image_Un)
  have "vec_inv ?st2 ({x \<in> ?V ` ({0..<4} \<union> {4..<4 * ?n}). ?q x} \<union> {x \<in> set (map ?V [4 * ?n..<sz]). ?q x})"
    by (rule fold_invariant[where I = vec_inv, OF 1]) (rule vec_inv_tail_body, assumption, rule tl)
  moreover have "{0..<4} \<union> {4..<4 * ?n} \<union> {4 * ?n..<sz} = {0..<sz}" using n by auto
  ultimately have "vec_inv ?st2 {x \<in> ?V ` {0..<sz}. ?q x}"
    by (simp add: filter_image_Un)
  then have "range_inv (reduce_state ?st2) {x \<in> set (visited values sz 1). ?q x}"
    unfolding visited_contiguous by (simp add: vec_inv_reduce)
  then show ?thesis by (simp add: sse2_vectorMinMax_fold[OF len assms(2)])
qed

section \<open>Results of the entry points\<close>

lemma select_path_vector_stride: "select_path sse mode sz stride = Sse2Vector \<Longrightarrow> stride = 1 \<and> 8 < sz"
  by (auto simp: select_path_def split: if_splits)

lemma scanArray_range:
  assumes "valid_view values sz stride"
  shows "\<exists>r. scanArray sse mode values sz stride = Some r \<and>
             range_inv r {x \<in> set (visited values sz stride). cpu_isFinite x}"
proof (cases "select_path sse mode sz stride")
  case Cpu
  with cpu_stridedMinMaxSafe_range[OF assms] show ?thesis by (simp add: scanArray_def)
next
  case Sse2Strided
  with sse2_stridedMinMaxSafe_range[OF assms] show ?thesis by (simp add: scanArray_def)
next
  case Sse2Vector
  then have s: "stride = 1" using select_path_vector_stride by blast
  from sse2_vectorMinMaxSafe_range[OF assms[unfolded s]] Sse2Vector show ?thesis
    unfolding s by (simp add: scanArray_def)
qed

lemma unsafeScanArray_range:
  assumes "valid_view values sz stride" and "\<forall>x\<in>set (visited values sz stride). \<not> is_nan x"
  shows "\<exists>r. unsafeScanArray sse mode values sz stride = Some r \<and>
             range_inv r (set (visited values sz stride))"
proof -
  have S: "{x \<in> set (visited values sz stride). \<not> is_nan x} = set (visited values sz stride)"
    using assms(2) by blast
  show ?thesis
  proof (cases "select_path sse mode sz stride")
    case Cpu
    with cpu_stridedMinMax_range[OF assms(1)] show ?thesis
      unfolding S by (auto simp: unsafeScanArray_def)
  next
    case Sse2Strided
    with sse2_stridedMinMax_range[OF assms] show ?thesis
      unfolding S by (simp add: unsafeScanArray_def)
  next
    case Sse2Vector
    then have s: "stride = 1" and "8 < sz" using select_path_vector_stride by blast+
    then have "4 \<le> sz" by simp
    from sse2_vectorMinMax_range[OF assms(1)[unfolded s] this assms(2)[unfolded s]] Sse2Vector
    show ?thesis
      using S unfolding s by (simp add: unsafeScanArray_def)
  qed
qed

text \<open>What the invariant says of a result.\<close>

lemma range_inv_not_nan: "range_inv (mn, mx) S \<Longrightarrow> \<not> is_nan mn \<and> \<not> is_nan mx"
  by (simp add: range_inv_def ext_inv_def)

lemma range_inv_empty: "range_inv (mn, mx) {} \<Longrightarrow> mn = pInf \<and> mx = nInf"
  by (simp add: range_inv_def ext_inv_def)

lemma range_inv_bounds:
  assumes "range_inv (mn, mx) S" and "x \<in> S" and "\<not> is_nan x"
  shows "fle mn x \<and> fle x mx"
  using assms by (auto simp: range_inv_def ext_inv_def fle_def nfval_def)

lemma range_inv_member_finite:
  assumes "range_inv (mn, mx) S" and "x \<in> S" and "cpu_isFinite x"
  shows "mn \<in> S \<and> mx \<in> S"
proof -
  from assms(1,2) have "fval mn \<le> fval x" "fval x \<le> fval mx" "mn = pInf \<or> mn \<in> S" "mx = nInf \<or> mx \<in> S"
    by (auto simp: range_inv_def ext_inv_def nfval_def)
  with finite_fval[OF assms(3)] show ?thesis
    by (auto simp: fval_pInf fval_nInf)
qed

lemma range_inv_ordered:
  assumes "range_inv (mn, mx) S" and "x \<in> S"
  shows "fle mn mx"
proof -
  from assms have "fval mn \<le> fval x" "fval x \<le> fval mx" "\<not> is_nan mn" "\<not> is_nan mx"
    by (auto simp: range_inv_def ext_inv_def nfval_def)
  then show ?thesis by (simp add: fle_def)
qed

lemma ext_inv_min_unique:
  assumes "ext_inv fval pInf m S" and "ext_inv fval pInf m' S" and "\<forall>x\<in>S. \<not> is_nan x"
  shows "fval m \<le> fval m'"
proof -
  from assms(2) have "m' = pInf \<or> m' \<in> S" by (simp add: ext_inv_def)
  then show ?thesis
  proof
    assume "m' = pInf"
    moreover from assms(1) have "\<not> is_nan m" by (simp add: ext_inv_def)
    ultimately show ?thesis using not_nan_fval[of m] by (simp add: fval_pInf)
  next
    assume "m' \<in> S" with assms(1) show ?thesis by (simp add: ext_inv_def)
  qed
qed

lemma ext_inv_max_unique:
  assumes "ext_inv nfval nInf m S" and "ext_inv nfval nInf m' S" and "\<forall>x\<in>S. \<not> is_nan x"
  shows "fval m' \<le> fval m"
proof -
  from assms(2) have "m' = nInf \<or> m' \<in> S" by (simp add: ext_inv_def)
  then show ?thesis
  proof
    assume "m' = nInf"
    moreover from assms(1) have "\<not> is_nan m" by (simp add: ext_inv_def)
    ultimately show ?thesis using not_nan_fval[of m] by (simp add: fval_nInf)
  next
    assume "m' \<in> S" with assms(1) show ?thesis by (simp add: ext_inv_def nfval_def)
  qed
qed

lemma range_inv_unique:
  assumes "range_inv (mn, mx) S" and "range_inv (mn', mx') S" and "\<forall>x\<in>S. \<not> is_nan x"
  shows "feq mn mn' \<and> feq mx mx'"
proof -
  from assms(1,2) have a: "ext_inv fval pInf mn S" "ext_inv fval pInf mn' S"
    "ext_inv nfval nInf mx S" "ext_inv nfval nInf mx' S"
    by (simp_all add: range_inv_def)
  have "fval mn = fval mn'"
    using ext_inv_min_unique[OF a(1) a(2) assms(3)] ext_inv_min_unique[OF a(2) a(1) assms(3)] by simp
  moreover have "fval mx = fval mx'"
    using ext_inv_max_unique[OF a(3) a(4) assms(3)] ext_inv_max_unique[OF a(4) a(3) assms(3)] by simp
  ultimately show ?thesis
    using a by (simp add: feq_def ext_inv_def)
qed

text \<open>
  Claim C1. On a buffer that holds the view, \<open>scanArray\<close> returns, under every dispatch mode
  and with or without the vector code, a pair \<open>(min, max)\<close> determined by the finite elements
  among the visited ones: if there is none the pair is the sentinel \<open>(+Infinity, -Infinity)\<close>;
  otherwise \<open>min\<close> and \<open>max\<close> are themselves finite visited elements, \<open>min\<close> is less than or equal
  to every finite visited element and \<open>max\<close> greater than or equal to every one. NaN and the
  infinities take no part. (The theorem also covers \<open>size = 0\<close>.)
\<close>

theorem scanArray_finite_min_max:
  assumes "valid_view values sz stride"
  shows "\<exists>mn mx. scanArray use_sse2_instructions mode values sz stride = Some (mn, mx) \<and>
           (let F = filter cpu_isFinite (visited values sz stride)
            in if F = [] then mn = pInf \<and> mx = nInf
               else mn \<in> set F \<and> mx \<in> set F \<and> (\<forall>x\<in>set F. fle mn x \<and> fle x mx))"
proof -
  let ?F = "filter cpu_isFinite (visited values sz stride)"
  from scanArray_range[OF assms] obtain mn mx
    where r: "scanArray use_sse2_instructions mode values sz stride = Some (mn, mx)"
      and inv: "range_inv (mn, mx) (set ?F)"
    by fastforce
  have "mn = pInf \<and> mx = nInf" if "?F = []"
    using inv that range_inv_empty by simp
  moreover have "mn \<in> set ?F \<and> mx \<in> set ?F \<and> (\<forall>x\<in>set ?F. fle mn x \<and> fle x mx)" if "?F \<noteq> []"
  proof -
    from that obtain y where y: "y \<in> set ?F" by (meson last_in_set)
    then have "cpu_isFinite y" by simp
    from range_inv_member_finite[OF inv y this] have "mn \<in> set ?F \<and> mx \<in> set ?F" .
    moreover have "fle mn x \<and> fle x mx" if "x \<in> set ?F" for x
    proof -
      from that have "\<not> is_nan x" by (simp add: cpu_isFinite_classify)
      with range_inv_bounds[OF inv that] show ?thesis by simp
    qed
    ultimately show ?thesis by blast
  qed
  ultimately show ?thesis using r by (simp add: Let_def)
qed

theorem scanArray_finite_min_max_witness:
  "valid_view [0x7FC00000, 0x3F800000, 0x40000000, 0xFF800000, 0x7F800000, 0x40A00000] 6 1 \<and>
   filter cpu_isFinite
     (visited [0x7FC00000, 0x3F800000, 0x40000000, 0xFF800000, 0x7F800000, 0x40A00000] 6 1)
     = [0x3F800000, 0x40000000, 0x40A00000] \<and>
   scanArray True 0 [0x7FC00000, 0x3F800000, 0x40000000, 0xFF800000, 0x7F800000, 0x40A00000] 6 1
     = Some (0x3F800000, 0x40A00000)"
proof -
  have h: "valid_view [0x7FC00000, 0x3F800000, 0x40000000, 0xFF800000, 0x7F800000, 0x40A00000] 6 1"
    by (simp add: valid_view_def)
  show ?thesis
    using h scanArray_finite_min_max[OF h, of True 0]
    by (simp add: eval_simps upt_conv_Cons)
qed

text \<open>
  Claim C10. On a buffer that holds the view, neither component of the pair \<open>scanArray\<close>
  returns is a NaN, whatever the elements and under every dispatch mode.
\<close>

theorem scanArray_never_nan:
  assumes "valid_view values sz stride"
  shows "\<exists>mn mx. scanArray use_sse2_instructions mode values sz stride = Some (mn, mx) \<and>
           \<not> is_nan mn \<and> \<not> is_nan mx"
proof -
  from scanArray_range[OF assms] obtain mn mx
    where "scanArray use_sse2_instructions mode values sz stride = Some (mn, mx)"
      and "range_inv (mn, mx) {x \<in> set (visited values sz stride). cpu_isFinite x}"
    by fastforce
  then show ?thesis using range_inv_not_nan by blast
qed

theorem scanArray_never_nan_witness:
  "valid_view [0x7FC00000, 0x7FC00000, 0x7FC00000] 3 1 \<and>
   scanArray True 0 [0x7FC00000, 0x7FC00000, 0x7FC00000] 3 1 = Some (pInf, nInf) \<and>
   \<not> is_nan pInf \<and> \<not> is_nan nInf"
proof -
  have h: "valid_view [0x7FC00000, 0x7FC00000, 0x7FC00000] 3 1"
    by (simp add: valid_view_def)
  show ?thesis
    using h scanArray_never_nan[OF h, of True 0]
    by (simp add: eval_simps)
qed

text \<open>
  Claim C2 as stated fails. On \<open>[1.0, NaN, 2.0]\<close> the scalar \<open>unsafeScanArray\<close> (mode 2) skips the
  NaN and returns \<open>(1.0, 2.0)\<close>, while the strided vector path (mode 0) lets the NaN replace both
  accumulators and returns \<open>(2.0, 2.0)\<close>. On \<open>[+0.0, -0.0]\<close> the scalar \<open>scanArray\<close> returns
  \<open>(+0.0, +0.0)\<close> and the vector path \<open>(-0.0, -0.0)\<close>: equal as numbers, different bit patterns.
\<close>

theorem dispatch_modes_disagree_counterexample:
  "unsafeScanArray True 2 [0x3F800000, 0x7FC00000, 0x40000000] 3 1 = Some (0x3F800000, 0x40000000) \<and>
   unsafeScanArray True 0 [0x3F800000, 0x7FC00000, 0x40000000] 3 1 = Some (0x40000000, 0x40000000) \<and>
   \<not> feq 0x3F800000 0x40000000 \<and>
   scanArray True 2 [0, 0x80000000] 2 1 = Some (0, 0) \<and>
   scanArray True 0 [0, 0x80000000] 2 1 = Some (0x80000000, 0x80000000)"
  by (simp add: eval_simps)

text \<open>
  Claim C2, amended. On a buffer that holds the view, the pairs \<open>scanArray\<close> returns under any
  two dispatch modes are equal component by component as IEEE values (\<open>feq\<close>, the \<open>==\<close> of
  C++); so are the pairs \<open>unsafeScanArray\<close> returns, provided no visited element is a NaN.
\<close>

theorem dispatch_modes_agree:
  assumes "valid_view values sz stride"
  shows "(\<exists>mn mx mn' mx'.
            scanArray sse mode values sz stride = Some (mn, mx) \<and>
            scanArray sse' mode' values sz stride = Some (mn', mx') \<and>
            feq mn mn' \<and> feq mx mx') \<and>
         ((\<forall>x\<in>set (visited values sz stride). \<not> is_nan x) \<longrightarrow>
          (\<exists>mn mx mn' mx'.
            unsafeScanArray sse mode values sz stride = Some (mn, mx) \<and>
            unsafeScanArray sse' mode' values sz stride = Some (mn', mx') \<and>
            feq mn mn' \<and> feq mx mx'))"
proof
  let ?S = "{x \<in> set (visited values sz stride). cpu_isFinite x}"
  from scanArray_range[OF assms, of sse mode] obtain mn mx
    where 1: "scanArray sse mode values sz stride = Some (mn, mx)" "range_inv (mn, mx) ?S"
    by fastforce
  from scanArray_range[OF assms, of sse' mode'] obtain mn' mx'
    where 2: "scanArray sse' mode' values sz stride = Some (mn', mx')" "range_inv (mn', mx') ?S"
    by fastforce
  have "\<forall>x\<in>?S. \<not> is_nan x" by (simp add: cpu_isFinite_classify)
  from range_inv_unique[OF 1(2) 2(2) this] 1(1) 2(1)
  show "\<exists>mn mx mn' mx'.
            scanArray sse mode values sz stride = Some (mn, mx) \<and>
            scanArray sse' mode' values sz stride = Some (mn', mx') \<and>
            feq mn mn' \<and> feq mx mx'" by blast
next
  show "(\<forall>x\<in>set (visited values sz stride). \<not> is_nan x) \<longrightarrow>
          (\<exists>mn mx mn' mx'.
            unsafeScanArray sse mode values sz stride = Some (mn, mx) \<and>
            unsafeScanArray sse' mode' values sz stride = Some (mn', mx') \<and>
            feq mn mn' \<and> feq mx mx')"
  proof
    let ?S = "set (visited values sz stride)"
    assume nn: "\<forall>x\<in>?S. \<not> is_nan x"
    from unsafeScanArray_range[OF assms nn, of sse mode] obtain mn mx
      where 1: "unsafeScanArray sse mode values sz stride = Some (mn, mx)" "range_inv (mn, mx) ?S"
      by fastforce
    from unsafeScanArray_range[OF assms nn, of sse' mode'] obtain mn' mx'
      where 2: "unsafeScanArray sse' mode' values sz stride = Some (mn', mx')" "range_inv (mn', mx') ?S"
      by fastforce
    from range_inv_unique[OF 1(2) 2(2) nn] 1(1) 2(1)
    show "\<exists>mn mx mn' mx'.
            unsafeScanArray sse mode values sz stride = Some (mn, mx) \<and>
            unsafeScanArray sse' mode' values sz stride = Some (mn', mx') \<and>
            feq mn mn' \<and> feq mx mx'" by blast
  qed
qed

theorem dispatch_modes_agree_witness:
  "valid_view [0, 0x80000000, 0x3F800000] 3 1 \<and>
   list_all (\<lambda>x. \<not> is_nan x) (visited [0, 0x80000000, 0x3F800000] 3 1) \<and>
   (\<exists>mn mx mn' mx'.
      scanArray True 2 [0, 0x80000000, 0x3F800000] 3 1 = Some (mn, mx) \<and>
      scanArray True 0 [0, 0x80000000, 0x3F800000] 3 1 = Some (mn', mx') \<and>
      feq mn mn' \<and> feq mx mx') \<and>
   (\<exists>mn mx mn' mx'.
      unsafeScanArray True 2 [0, 0x80000000, 0x3F800000] 3 1 = Some (mn, mx) \<and>
      unsafeScanArray True 0 [0, 0x80000000, 0x3F800000] 3 1 = Some (mn', mx') \<and>
      feq mn mn' \<and> feq mx mx')"
proof -
  have h: "valid_view [0, 0x80000000, 0x3F800000] 3 1"
    by (simp add: valid_view_def)
  have n: "\<forall>x\<in>set (visited [0, 0x80000000, 0x3F800000] 3 1). \<not> is_nan x"
    by (simp add: visited_def upt_conv_Cons is_nan_def exponent_def mantissa_def)
  show ?thesis
    using h n dispatch_modes_agree[OF h, of True 2 True 0] unfolding list_all_iff by blast
qed

text \<open>
  Claim C4 as stated fails for the unsafe variant. On the single element \<open>[NaN]\<close> the scalar path
  (mode 2) returns the sentinel pair, whose minimum is not below its maximum, although an
  element was visited; on \<open>[1.0, NaN]\<close> the strided vector path (mode 0) returns \<open>(NaN, NaN)\<close>,
  which is neither ordered nor the sentinel pair.
\<close>

theorem min_le_max_counterexample:
  "unsafeScanArray True 2 [0x7FC00000] 1 1 = Some (pInf, nInf) \<and> \<not> fle pInf nInf \<and>
   unsafeScanArray True 0 [0x3F800000, 0x7FC00000] 2 1 = Some (0x7FC00000, 0x7FC00000) \<and>
   \<not> is_nan 0x3F800000 \<and> \<not> fle 0x7FC00000 0x7FC00000 \<and> (0x7FC00000 :: float) \<noteq> pInf"
  by (simp add: eval_simps)

text \<open>
  Claim C4, amended. On a buffer that holds the view and under every dispatch mode:
  \<open>scanArray\<close> returns a pair with \<open>min \<le> max\<close> when some visited element is finite and the
  sentinel pair otherwise; \<open>unsafeScanArray\<close>, when no visited element is a NaN, returns a pair
  with \<open>min \<le> max\<close> when \<open>size > 0\<close> and the sentinel pair when \<open>size = 0\<close>.
\<close>

theorem min_le_max_or_sentinel:
  assumes "valid_view values sz stride"
  shows "(\<exists>mn mx. scanArray sse mode values sz stride = Some (mn, mx) \<and>
            (if \<exists>x\<in>set (visited values sz stride). cpu_isFinite x
             then fle mn mx else mn = pInf \<and> mx = nInf)) \<and>
         ((\<forall>x\<in>set (visited values sz stride). \<not> is_nan x) \<longrightarrow>
          (\<exists>mn mx. unsafeScanArray sse mode values sz stride = Some (mn, mx) \<and>
            (if 0 < sz then fle mn mx else mn = pInf \<and> mx = nInf)))"
proof
  let ?S = "{x \<in> set (visited values sz stride). cpu_isFinite x}"
  from scanArray_range[OF assms, of sse mode] obtain mn mx
    where 1: "scanArray sse mode values sz stride = Some (mn, mx)" "range_inv (mn, mx) ?S"
    by fastforce
  have "fle mn mx" if "\<exists>x\<in>set (visited values sz stride). cpu_isFinite x"
  proof -
    from that obtain x where "x \<in> ?S" by blast
    from range_inv_ordered[OF 1(2) this] show ?thesis .
  qed
  moreover have "mn = pInf \<and> mx = nInf" if "\<not> (\<exists>x\<in>set (visited values sz stride). cpu_isFinite x)"
  proof -
    from that have "?S = {}" by blast
    with 1(2) range_inv_empty show ?thesis by simp
  qed
  ultimately show "\<exists>mn mx. scanArray sse mode values sz stride = Some (mn, mx) \<and>
            (if \<exists>x\<in>set (visited values sz stride). cpu_isFinite x
             then fle mn mx else mn = pInf \<and> mx = nInf)"
    using 1(1) by auto
next
  show "(\<forall>x\<in>set (visited values sz stride). \<not> is_nan x) \<longrightarrow>
          (\<exists>mn mx. unsafeScanArray sse mode values sz stride = Some (mn, mx) \<and>
            (if 0 < sz then fle mn mx else mn = pInf \<and> mx = nInf))"
  proof
    let ?S = "set (visited values sz stride)"
    assume nn: "\<forall>x\<in>?S. \<not> is_nan x"
    from unsafeScanArray_range[OF assms nn, of sse mode] obtain mn mx
      where 1: "unsafeScanArray sse mode values sz stride = Some (mn, mx)" "range_inv (mn, mx) ?S"
      by fastforce
    have "fle mn mx" if "0 < sz"
    proof -
      from that have "visited values sz stride \<noteq> []" by (simp add: visited_def)
      then obtain x where "x \<in> ?S" by (meson last_in_set)
      from range_inv_ordered[OF 1(2) this] show ?thesis .
    qed
    moreover have "mn = pInf \<and> mx = nInf" if "\<not> 0 < sz"
    proof -
      from that have "?S = {}" by (simp add: visited_def)
      with 1(2) range_inv_empty show ?thesis by simp
    qed
    ultimately show "\<exists>mn mx. unsafeScanArray sse mode values sz stride = Some (mn, mx) \<and>
            (if 0 < sz then fle mn mx else mn = pInf \<and> mx = nInf)"
      using 1(1) by auto
  qed
qed

theorem min_le_max_or_sentinel_witness:
  "valid_view [0x40400000, 0x3F800000, 0x40000000] 3 1 \<and>
   (\<exists>x\<in>set (visited [0x40400000, 0x3F800000, 0x40000000] 3 1). cpu_isFinite x) \<and>
   list_all (\<lambda>x. \<not> is_nan x) (visited [0x40400000, 0x3F800000, 0x40000000] 3 1) \<and>
   (\<exists>mn mx. scanArray True 0 [0x40400000, 0x3F800000, 0x40000000] 3 1 = Some (mn, mx) \<and> fle mn mx) \<and>
   (\<exists>mn mx. unsafeScanArray True 0 [0x40400000, 0x3F800000, 0x40000000] 3 1 = Some (mn, mx) \<and> fle mn mx)"
proof -
  have h: "valid_view [0x40400000, 0x3F800000, 0x40000000] 3 1"
    by (simp add: valid_view_def)
  have f: "\<exists>x\<in>set (visited [0x40400000, 0x3F800000, 0x40000000] 3 1). cpu_isFinite x"
    by (simp add: visited_def upt_conv_Cons cpu_isFinite_def)
  have n: "\<forall>x\<in>set (visited [0x40400000, 0x3F800000, 0x40000000] 3 1). \<not> is_nan x"
    by (simp add: visited_def upt_conv_Cons is_nan_def exponent_def mantissa_def)
  have p: "(0::nat) < 3" by simp
  show ?thesis
    using h f n p min_le_max_or_sentinel[OF h, of True 0] unfolding list_all_iff by simp
qed

section \<open>Scalar NaN handling, agreement on finite input, stride\<close>





text \<open>On finite elements the NaN-safe bodies are the plain ones.\<close>

lemma cpu_safe_body_finite:
  "cpu_isFinite v \<Longrightarrow> cpu_stridedMinMaxSafe_body v = cpu_stridedMinMax_body v"
  by (rule ext) auto

lemma sse2_strided_safe_body_finite:
  "cpu_isFinite v \<Longrightarrow> sse2_stridedMinMaxSafe_body v = sse2_stridedMinMax_body v"
  by (rule ext) (simp add: sse2_stridedMinMaxSafe_body_cases)

lemma select_finite_finite: "cpu_isFinite t \<Longrightarrow> select_finite t r = t"
  by (simp add: select_finite_def)

lemma sse2_vector_safe_body_finite:
  assumes "\<forall>x\<in>lanes t. cpu_isFinite x"
  shows "sse2_vectorMinMaxSafe_body t = sse2_vectorMinMax_body t"
proof
  fix st :: "m128 \<times> m128"
  obtain a0 a1 a2 a3 b0 b1 b2 b3 where st: "st = ((a0, a1, a2, a3), (b0, b1, b2, b3))"
    by (rule m128_pair_cases)
  obtain t0 t1 t2 t3 where t: "t = (t0, t1, t2, t3)" by (rule m128_cases)
  from assms show "sse2_vectorMinMaxSafe_body t st = sse2_vectorMinMax_body t st"
    unfolding st t sse2_vectorMinMaxSafe_body_eq by (simp add: select_finite_finite)
qed

lemma min_lane_finite_pInf: "cpu_isFinite t \<Longrightarrow> min_lane t pInf = t"
  using finite_fval[of t] by (simp add: min_lane_def flt_def fval_pInf not_nan_pInf cpu_isFinite_classify)

lemma max_lane_finite_nInf: "cpu_isFinite t \<Longrightarrow> max_lane t nInf = t"
  using finite_fval[of t] by (simp add: max_lane_def fgt_def flt_def fval_nInf not_nan_nInf cpu_isFinite_classify)

lemma sse2_vector_first_block:
  assumes "\<forall>x\<in>lanes t. cpu_isFinite x"
  shows "sse2_vectorMinMaxSafe_body t (mm_set1_ps pInf, mm_set1_ps nInf) = (t, t)"
proof -
  obtain t0 t1 t2 t3 where t: "t = (t0, t1, t2, t3)" by (rule m128_cases)
  from assms show ?thesis
    unfolding t mm_set1_ps_def sse2_vectorMinMaxSafe_body_eq
    by (simp add: select_finite_finite min_lane_finite_pInf max_lane_finite_nInf)
qed

lemma blocks_first: "1 \<le> n \<Longrightarrow> blocks values 0 n = block0 values # blocks values 1 n"
  using blocks_Cons[of 0 n "values"] by (simp add: block0_def eval_nat_numeral)

lemma vector_safe_unsafe_finite:
  assumes "valid_view values sz 1" and "4 \<le> sz"
    and fin: "\<forall>x\<in>set (visited values sz 1). cpu_isFinite x"
  shows "sse2_vectorMinMaxSafe values sz = sse2_vectorMinMax values sz"
proof -
  let ?n = "sz div 4" and ?V = "\<lambda>i. values ! i"
  have len: "sz \<le> length values" by (rule valid_view_contiguous[OF assms(1)])
  have n: "1 \<le> ?n" "4 * ?n \<le> sz" using assms(2) by auto
  from fin have all: "\<forall>i. i < sz \<longrightarrow> cpu_isFinite (values ! i)"
    unfolding visited_contiguous by simp
  have b0: "\<forall>x\<in>lanes (block0 values). cpu_isFinite x"
    using all assms(2) by (auto simp: lanes_block0)
  have bl: "sse2_vectorMinMaxSafe_body t = sse2_vectorMinMax_body t"
    if "t \<in> set (blocks values 1 ?n)" for t
  proof (rule sse2_vector_safe_body_finite, rule ballI)
    fix x assume x: "x \<in> lanes t"
    from that have "lanes t \<subseteq> ?V ` {4 * 1..<4 * ?n}"
      unfolding blocks_lanes[symmetric] by blast
    from this x have "x \<in> ?V ` {4 * 1..<4 * ?n}" by (rule subsetD)
    then obtain i where i: "i < 4 * ?n" "x = values ! i" by auto
    from i(1) have "i < sz" by linarith
    with all i(2) show "cpu_isFinite x" by simp
  qed
  have tl: "sse2_stridedMinMaxSafe_body v = sse2_stridedMinMax_body v"
    if "v \<in> set (map ?V [4 * ?n..<sz])" for v
    using that all by (intro sse2_strided_safe_body_finite) auto
  have "fold sse2_vectorMinMaxSafe_body (blocks values 0 ?n) (mm_set1_ps pInf, mm_set1_ps nInf)
        = fold sse2_vectorMinMaxSafe_body (blocks values 1 ?n) (block0 values, block0 values)"
    by (simp only: blocks_first[OF n(1)] fold_simps sse2_vector_first_block[OF b0])
  also have "\<dots> = fold sse2_vectorMinMax_body (blocks values 1 ?n) (block0 values, block0 values)"
    by (rule fold_cong) (simp_all add: bl)
  finally have 1: "fold sse2_vectorMinMaxSafe_body (blocks values 0 ?n) (mm_set1_ps pInf, mm_set1_ps nInf)
        = fold sse2_vectorMinMax_body (blocks values 1 ?n) (block0 values, block0 values)" .
  have 2: "fold sse2_stridedMinMaxSafe_body (map ?V [4 * ?n..<sz]) st
         = fold sse2_stridedMinMax_body (map ?V [4 * ?n..<sz]) st" for st
    by (rule fold_cong) (simp_all add: tl del: set_map)
  show ?thesis
    unfolding sse2_vectorMinMaxSafe_fold[OF len] sse2_vectorMinMax_fold[OF len assms(2)] 1 2 ..
qed

text \<open>
  Claim C6. On a non-empty view whose visited elements are all finite, \<open>scanArray\<close> and
  \<open>unsafeScanArray\<close> return the same pair, bit for bit, under every dispatch mode.
\<close>

theorem safe_unsafe_agree_on_finite:
  assumes "valid_view values sz stride" and "0 < sz"
    and fin: "\<forall>x\<in>set (visited values sz stride). cpu_isFinite x"
  shows "scanArray use_sse2_instructions mode values sz stride =
           unsafeScanArray use_sse2_instructions mode values sz stride \<and>
         (\<exists>mn mx. scanArray use_sse2_instructions mode values sz stride = Some (mn, mx))"
proof -
  have eq: "scanArray use_sse2_instructions mode values sz stride =
            unsafeScanArray use_sse2_instructions mode values sz stride"
  proof (cases "select_path use_sse2_instructions mode sz stride")
    case Cpu
    have "fold cpu_stridedMinMaxSafe_body (visited values sz stride) (pInf, nInf)
        = fold cpu_stridedMinMax_body (visited values sz stride) (pInf, nInf)"
      by (rule fold_cong) (simp_all add: fin cpu_safe_body_finite)
    with Cpu show ?thesis
      by (simp add: scanArray_def unsafeScanArray_def cpu_stridedMinMax_def cpu_stridedMinMaxSafe_def
          strided_for_fold[OF assms(1)])
  next
    case Sse2Strided
    have "fold sse2_stridedMinMaxSafe_body (visited values sz stride) (mm_set_ss pInf, mm_set_ss nInf)
        = fold sse2_stridedMinMax_body (visited values sz stride) (mm_set_ss pInf, mm_set_ss nInf)"
      by (rule fold_cong) (simp_all add: fin sse2_strided_safe_body_finite)
    with Sse2Strided show ?thesis
      by (simp add: scanArray_def unsafeScanArray_def sse2_stridedMinMax_fold[OF assms(1)]
          sse2_stridedMinMaxSafe_fold[OF assms(1)])
  next
    case Sse2Vector
    then have s: "stride = 1" and "8 < sz" using select_path_vector_stride by blast+
    then have "4 \<le> sz" by simp
    from vector_safe_unsafe_finite[OF assms(1)[unfolded s] this fin[unfolded s]] Sse2Vector
    show ?thesis by (simp add: scanArray_def unsafeScanArray_def)
  qed
  moreover from scanArray_range[OF assms(1)]
  have "\<exists>mn mx. scanArray use_sse2_instructions mode values sz stride = Some (mn, mx)"
    by fastforce
  ultimately show ?thesis by simp
qed

theorem safe_unsafe_agree_on_finite_witness:
  "valid_view [0x40400000, 0x3F800000, 0x40000000, 0x40A00000, 0x41100000,
               0x3F800000, 0x40000000, 0x40400000, 0x40A00000] 9 1 \<and>
   scanArray True 0 [0x40400000, 0x3F800000, 0x40000000, 0x40A00000, 0x41100000,
                     0x3F800000, 0x40000000, 0x40400000, 0x40A00000] 9 1 = Some (0x3F800000, 0x41100000) \<and>
   unsafeScanArray True 0 [0x40400000, 0x3F800000, 0x40000000, 0x40A00000, 0x41100000,
                     0x3F800000, 0x40000000, 0x40400000, 0x40A00000] 9 1 = Some (0x3F800000, 0x41100000)"
proof -
  let ?V = "[0x40400000, 0x3F800000, 0x40000000, 0x40A00000, 0x41100000,
             0x3F800000, 0x40000000, 0x40400000, 0x40A00000] :: buffer"
  have h: "valid_view ?V 9 1" by (simp add: valid_view_def)
  have p: "(0::nat) < 9" by simp
  have f: "\<forall>x\<in>set (visited ?V 9 1). cpu_isFinite x"
    by (simp add: visited_def upt_conv_Cons cpu_isFinite_def)
  have s: "scanArray True 0 ?V 9 1 = Some (0x3F800000, 0x41100000)"
    by (simp add: eval_simps)
  show ?thesis
    using h s safe_unsafe_agree_on_finite[OF h p f, of True 0] by simp
qed

text \<open>Buffers that agree on the visited offsets.\<close>

lemma visited_cong:
  assumes "\<forall>i. i < sz \<longrightarrow> values ! (i * stride) = values' ! (i * stride)"
  shows "visited values sz stride = visited values' sz stride"
  using assms by (simp add: visited_def)

lemma blocks_cong:
  assumes "\<forall>i. i < sz \<longrightarrow> values ! i = values' ! i" and "4 * n \<le> sz"
  shows "blocks values a n = blocks values' a n"
  unfolding blocks_def
proof (rule map_cong[OF refl])
  fix k assume "k \<in> set [a..<n]"
  then have "4 * k + 3 < sz" using assms(2) by auto
  then have "4 * k < sz" "4 * k + 1 < sz" "4 * k + 2 < sz" "4 * k + 3 < sz" by linarith+
  with assms(1) show "(values ! (4 * k), values ! (4 * k + 1), values ! (4 * k + 2), values ! (4 * k + 3))
     = (values' ! (4 * k), values' ! (4 * k + 1), values' ! (4 * k + 2), values' ! (4 * k + 3))"
    by simp
qed

lemma unsafeScanArray_total:
  assumes "valid_view values sz stride"
  shows "unsafeScanArray sse mode values sz stride \<noteq> None"
proof (cases "select_path sse mode sz stride")
  case Cpu
  then show ?thesis
    by (simp add: unsafeScanArray_def cpu_stridedMinMax_def strided_for_fold[OF assms])
next
  case Sse2Strided
  then show ?thesis
    by (simp add: unsafeScanArray_def sse2_stridedMinMax_fold[OF assms])
next
  case Sse2Vector
  then have s: "stride = 1" and "8 < sz" using select_path_vector_stride by blast+
  then have four: "4 \<le> sz" by simp
  have len: "sz \<le> length values" using assms unfolding s by (rule valid_view_contiguous)
  from Sse2Vector show ?thesis
    by (simp add: unsafeScanArray_def sse2_vectorMinMax_fold[OF len four])
qed

text \<open>
  Claim C8. Two buffers that both hold the view and agree at the offsets
  \<open>0, stride, \<dots>, (size - 1) * stride\<close> give the same result, under every dispatch mode, for
  \<open>scanArray\<close> and for \<open>unsafeScanArray\<close>, whatever they hold elsewhere; and each entry point
  does return a pair on them.
\<close>

theorem only_visited_offsets_matter:
  assumes "valid_view values sz stride" and "valid_view values' sz stride"
    and agree: "\<forall>i. i < sz \<longrightarrow> values ! (i * stride) = values' ! (i * stride)"
  shows "scanArray use_sse2_instructions mode values sz stride =
           scanArray use_sse2_instructions mode values' sz stride \<and>
         unsafeScanArray use_sse2_instructions mode values sz stride =
           unsafeScanArray use_sse2_instructions mode values' sz stride \<and>
         scanArray use_sse2_instructions mode values sz stride \<noteq> None \<and>
         unsafeScanArray use_sse2_instructions mode values sz stride \<noteq> None"
proof -
  have v: "visited values sz stride = visited values' sz stride"
    by (rule visited_cong[OF agree])
  have strided: "strided_for body values sz stride 0 0 st = strided_for body values' sz stride 0 0 st"
    for body :: "float \<Rightarrow> 's \<Rightarrow> 's" and st
    by (simp add: strided_for_fold[OF assms(1)] strided_for_fold[OF assms(2)] v)
  have vec: "sse2_vectorMinMaxSafe values sz = sse2_vectorMinMaxSafe values' sz \<and>
             sse2_vectorMinMax values sz = sse2_vectorMinMax values' sz"
    if s: "stride = 1" and big: "8 < sz"
  proof -
    let ?n = "sz div 4"
    have len: "sz \<le> length values" "sz \<le> length values'"
      using assms(1,2) unfolding s by (simp_all add: valid_view_contiguous)
    have four: "4 \<le> sz" using big by simp
    from agree have a: "\<forall>i. i < sz \<longrightarrow> values ! i = values' ! i" unfolding s by simp
    have n: "4 * ?n \<le> sz" by simp
    have b: "blocks values a ?n = blocks values' a ?n" for a
      by (rule blocks_cong[OF a n])
    have t: "map (\<lambda>i. values ! i) [4 * ?n..<sz] = map (\<lambda>i. values' ! i) [4 * ?n..<sz]"
      using a by simp
    have z: "block0 values = block0 values'"
      using a four by (simp add: block0_def)
    show ?thesis
      unfolding sse2_vectorMinMaxSafe_fold[OF len(1)] sse2_vectorMinMaxSafe_fold[OF len(2)]
        sse2_vectorMinMax_fold[OF len(1) four] sse2_vectorMinMax_fold[OF len(2) four] b t z
      by simp
  qed
  have "scanArray use_sse2_instructions mode values sz stride =
           scanArray use_sse2_instructions mode values' sz stride \<and>
         unsafeScanArray use_sse2_instructions mode values sz stride =
           unsafeScanArray use_sse2_instructions mode values' sz stride"
  proof (cases "select_path use_sse2_instructions mode sz stride")
    case Cpu
    then show ?thesis
      by (simp add: scanArray_def unsafeScanArray_def cpu_stridedMinMax_def cpu_stridedMinMaxSafe_def strided)
  next
    case Sse2Strided
    then show ?thesis
      by (simp add: scanArray_def unsafeScanArray_def sse2_stridedMinMax_def sse2_stridedMinMaxSafe_def strided)
  next
    case Sse2Vector
    with vec select_path_vector_stride[OF Sse2Vector] show ?thesis
      by (simp add: scanArray_def unsafeScanArray_def)
  qed
  moreover from scanArray_range[OF assms(1)]
  have "scanArray use_sse2_instructions mode values sz stride \<noteq> None" by fastforce
  moreover have "unsafeScanArray use_sse2_instructions mode values sz stride \<noteq> None"
    by (rule unsafeScanArray_total[OF assms(1)])
  ultimately show ?thesis by simp
qed

theorem only_visited_offsets_matter_witness:
  "valid_view [0x3F800000, 0x41100000, 0x40000000, 0x41100000, 0x40400000, 0x41100000] 3 2 \<and>
   valid_view [0x3F800000, 0x40A00000, 0x40000000, 0x40A00000, 0x40400000] 3 2 \<and>
   scanArray True 0 [0x3F800000, 0x41100000, 0x40000000, 0x41100000, 0x40400000, 0x41100000] 3 2 =
   Some (0x3F800000, 0x40400000) \<and>
   scanArray True 0 [0x3F800000, 0x40A00000, 0x40000000, 0x40A00000, 0x40400000] 3 2 =
   Some (0x3F800000, 0x40400000) \<and>
   unsafeScanArray True 0 [0x3F800000, 0x41100000, 0x40000000, 0x41100000, 0x40400000, 0x41100000] 3 2 =
   Some (0x3F800000, 0x40400000) \<and>
   unsafeScanArray True 0 [0x3F800000, 0x40A00000, 0x40000000, 0x40A00000, 0x40400000] 3 2 =
   Some (0x3F800000, 0x40400000)"
proof -
  let ?V = "[0x3F800000, 0x41100000, 0x40000000, 0x41100000, 0x40400000, 0x41100000] :: buffer"
  let ?W = "[0x3F800000, 0x40A00000, 0x40000000, 0x40A00000, 0x40400000] :: buffer"
  have h: "valid_view ?V 3 2" "valid_view ?W 3 2" by (simp_all add: valid_view_def)
  have a: "\<forall>i. i < 3 \<longrightarrow> ?V ! (i * 2) = ?W ! (i * 2)"
  proof (intro allI impI)
    fix i :: nat assume "i < 3"
    then have "i = 0 \<or> i = 1 \<or> i = 2" by linarith
    then show "?V ! (i * 2) = ?W ! (i * 2)" by auto
  qed
  have s: "scanArray True 0 ?V 3 2 = Some (0x3F800000, 0x40400000)"
    by (simp add: eval_simps)
  have u: "unsafeScanArray True 0 ?V 3 2 = Some (0x3F800000, 0x40400000)"
    by (simp add: eval_simps)
  show ?thesis
    using h s u only_visited_offsets_matter[OF h a, of True 0] by simp
qed

end
